theory Spec2Isabelle
  imports Main "HOL-Library.Word" "HOL-Library.List_Lexorder" "HOL-Library.Multiset"
begin

section \<open>Bytes, keys and the sorted table\<close>

text \<open>
  Go's \<open>[]byte\<close> is a list of 8-bit words, a TSID is a \<open>uint64\<close>. Keys are compared
  the way \<open>bytes.Compare\<close> does: lexicographically on unsigned bytes, a proper prefix
  being smaller; this is the order of \<open>HOL-Library.List_Lexorder\<close>.
\<close>

type_synonym byte = "8 word"
type_synonym bytes = "byte list"
type_synonym tsid = "64 word"

text \<open>\<open>bytes.HasPrefix(s, prefix)\<close>.\<close>

definition HasPrefix :: "bytes \<Rightarrow> bytes \<Rightarrow> bool" where
  "HasPrefix s p = (take (length p) s = p)"

text \<open>\<open>bytes.IndexByte(b, c)\<close>: the index of the first \<open>c\<close> in \<open>b\<close>, or \<open>-1\<close>.\<close>

fun IndexByte :: "bytes \<Rightarrow> byte \<Rightarrow> int" where
  "IndexByte [] c = -1"
| "IndexByte (b # bs) c =
     (if b = c then 0
      else (let n = IndexByte bs c in if n < 0 then -1 else n + 1))"

text \<open>
  The cursor \<open>mergeset.TableSearch\<close> belongs to the external merge table, which keeps its
  items sorted. It is modelled by the items still ahead of the cursor: \<open>ts.Seek(k)\<close>
  positions the cursor before the first item that is not smaller than \<open>k\<close>, and
  \<open>ts.NextItem()\<close> takes the head of what is left.
\<close>

definition Seek :: "bytes list \<Rightarrow> bytes \<Rightarrow> bytes list" where
  "Seek items k = dropWhile (\<lambda>it. it < k) items"

text \<open>\<open>encoding.UnmarshalUint64\<close> and \<open>encoding.UnmarshalUint16\<close>: big-endian reads of
  the first 8 (2) bytes. The callers below check the length first, where Go would panic.\<close>

definition be_word :: "bytes \<Rightarrow> 'a::len word" where
  "be_word bs = foldl (\<lambda>acc b. push_bit 8 acc + ucast b) 0 bs"

definition UnmarshalUint64 :: "bytes \<Rightarrow> tsid" where
  "UnmarshalUint64 bs = be_word (take 8 bs)"

definition UnmarshalUint16 :: "bytes \<Rightarrow> 16 word" where
  "UnmarshalUint16 bs = be_word (take 2 bs)"

section \<open>The predicate AST (package influxql)\<close>

text \<open>
  The operators and node types the search code inspects. \<open>NilExpr\<close> is the nil
  interface value; \<open>OtherExpr\<close> stands for every node type that no type switch of the
  search code names (numbers, calls, ...). Go strings are byte sequences.
\<close>

datatype token = ADD | SUB | MUL | DIV | AND | OR | EQ | NEQ | EQREGEX | NEQREGEX
  | LT | LTE | GT | GTE

datatype dataType = Unknown | Float | Integer | String | Boolean | Tag | AnyField

datatype expr =
    NilExpr
  | BinaryExpr token expr expr
  | ParenExpr expr
  | BooleanLiteral bool
  | VarRef bytes dataType
  | StringLiteral bytes
  | RegexLiteral bytes
  | OtherExpr nat

record TimeRange =
  Min_tr :: int
  Max_tr :: int

section \<open>Errors\<close>

text \<open>
  Every error value and every panic of the search code is a value of \<open>error\<close>. Errors of
  code that is not part of the search file (the table, the row parser, the tag filter, the
  series-key codec) carry their message and are wrapped where the source wraps them. A
  panic is never wrapped: it unwinds through the callers.
\<close>

datatype panic = BugIsNegative | BugOrSuffixes | SliceBounds | IndexOutOfRange
  | NilDereference | InterfaceConversion

datatype error =
    EOF
  | ErrFieldExpr
  | ConvertToBinaryExprFailed expr
  | InvalidTagToTSIDsLine bytes byte
  | DataCorruption bytes byte
  | MatchSuffixError bytes string
  | TableError string bytes string
  | FastPathError error
  | SlowPathError error
  | External string
  | Panic panic

definition wrap :: "(error \<Rightarrow> error) \<Rightarrow> error \<Rightarrow> error" where
  "wrap w e = (case e of Panic p \<Rightarrow> Panic p | _ \<Rightarrow> w e)"

section \<open>Declarations of the package that the search file uses\<close>

text \<open>
  The tag filter. Its type is declared outside the search file; the fields are the
  arguments of \<open>Init\<close> and the three fields the search code reads.
\<close>

record tagFilter =
  name :: bytes
  tagKey :: bytes
  tagValue :: bytes
  isNegative :: bool
  isRegexp :: bool
  prefix :: bytes
  orSuffixes :: "bytes list"

text \<open>
  Constants and functions that the search file calls and that are declared elsewhere. They
  are parameters of the model: every theorem below holds for each value of them.
  \<open>InitOnlyTail\<close> is the row parser's \<open>InitOnlyTail\<close> followed by \<open>ParseTSIDs\<close>: the
  TSIDs of a row's tail, or the parser's error; \<open>TSIDsLen\<close> is the length of that list.
\<close>

record pkg =
  tagSeparatorChar :: byte
  nsPrefixTagToTSIDs :: byte
  nsPrefixTSIDToKey :: byte
  MaxTSIDsPerRow :: nat
  MarshalCommonPrefix :: "bytes \<Rightarrow> byte \<Rightarrow> bytes"
  marshalCompositeNamePrefix :: "bytes \<Rightarrow> bytes \<Rightarrow> bytes"
  marshalTagValue :: "bytes \<Rightarrow> bytes \<Rightarrow> bytes"
  marshalTagValueNoTrailingTagSeparator :: "bytes \<Rightarrow> bytes \<Rightarrow> bytes"
  tfInit :: "bytes \<Rightarrow> bytes \<Rightarrow> bytes \<Rightarrow> bool \<Rightarrow> bool \<Rightarrow> string + tagFilter"
  matchSuffix :: "tagFilter \<Rightarrow> bytes \<Rightarrow> string + bool"
  InitOnlyTail :: "bytes \<Rightarrow> bytes \<Rightarrow> string + tsid list"
  MeasurementName :: "bytes \<Rightarrow> string + bytes"

text \<open>
  The state an \<open>indexSearch\<close> reads: the items of the merge table in table order, the
  error the cursor reports once \<open>NextItem\<close> has returned false, the deleted TSIDs of the
  index and the current version of each measurement (\<open>indexBuilder.getVersion\<close>).
\<close>

record indexSearch =
  items :: "bytes list"
  tsError :: "string option"
  getDeletedTSIDs :: "tsid set"
  getVersion :: "bytes \<Rightarrow> 16 word option"

section \<open>Row scans\<close>

text \<open>The inner loop of \<open>updateTSIDsForPrefix\<close>: the tail after \<open>tagSeps\<close> separators,
  \<open>None\<close> when one of them is missing.\<close>

fun skipTagSeps :: "byte \<Rightarrow> bytes \<Rightarrow> nat \<Rightarrow> bytes option" where
  "skipTagSeps sep tail 0 = Some tail"
| "skipTagSeps sep tail (Suc i) =
     (let n = IndexByte tail sep
      in if n < 0 then None else skipTagSeps sep (drop (nat n + 1) tail) i)"

text \<open>The loop of \<open>updateTSIDsForPrefix\<close> over the items ahead of the cursor. The set
  \<open>tsids\<close> is the caller's; every caller drops it when the scan returns an error.\<close>

fun updateTSIDsForPrefix_loop ::
  "pkg \<Rightarrow> string option \<Rightarrow> bytes \<Rightarrow> nat \<Rightarrow> bytes list \<Rightarrow> tsid set \<Rightarrow> error + tsid set" where
  "updateTSIDsForPrefix_loop P err pfx tagSeps [] tsids =
     (case err of
        Some e \<Rightarrow> Inl (TableError ''error when searching for all tsids by prefix'' pfx e)
      | None \<Rightarrow> Inr tsids)"
| "updateTSIDsForPrefix_loop P err pfx tagSeps (item # rest) tsids =
     (if \<not> HasPrefix item pfx then Inr tsids
      else (case skipTagSeps (tagSeparatorChar P) (drop (length pfx) item) tagSeps of
              None \<Rightarrow> Inl (InvalidTagToTSIDsLine item (tagSeparatorChar P))
            | Some tail \<Rightarrow>
                (case InitOnlyTail P item tail of
                   Inl e \<Rightarrow> Inl (External e)
                 | Inr ids \<Rightarrow>
                     updateTSIDsForPrefix_loop P err pfx tagSeps rest (tsids \<union> set ids))))"

definition updateTSIDsForPrefix ::
  "pkg \<Rightarrow> indexSearch \<Rightarrow> bytes \<Rightarrow> tsid set \<Rightarrow> nat \<Rightarrow> error + tsid set" where
  "updateTSIDsForPrefix P is pfx tsids tagSeps =
     updateTSIDsForPrefix_loop P (tsError is) pfx tagSeps (Seek (items is) pfx) tsids"

text \<open>\<open>getTSIDsByMeasurementName\<close>: the search prefix is the marshalled composite name
  without its last byte (slicing an empty buffer to length \<open>-1\<close> panics).\<close>

definition getTSIDsByMeasurementName :: "pkg \<Rightarrow> indexSearch \<Rightarrow> bytes \<Rightarrow> error + tsid set" where
  "getTSIDsByMeasurementName P is nm =
     (let compositeTagKey = marshalCompositeNamePrefix P [] nm;
          kb = marshalTagValue P (MarshalCommonPrefix P [] (nsPrefixTagToTSIDs P)) compositeTagKey
      in if kb = [] then Inl (Panic SliceBounds)
         else updateTSIDsForPrefix P is (butlast kb) {} 2)"

definition searchTSIDsByTimeRange ::
  "pkg \<Rightarrow> indexSearch \<Rightarrow> bytes \<Rightarrow> TimeRange \<Rightarrow> error + tsid set" where
  "searchTSIDsByTimeRange P is nm tr = getTSIDsByMeasurementName P is nm"

text \<open>\<open>updateTSIDsByOrSuffix\<close>: all rows under one exact prefix.\<close>

fun updateTSIDsByOrSuffix_loop ::
  "pkg \<Rightarrow> string option \<Rightarrow> bytes \<Rightarrow> bytes list \<Rightarrow> tsid set \<Rightarrow> error + tsid set" where
  "updateTSIDsByOrSuffix_loop P err pfx [] tsids =
     (case err of
        Some e \<Rightarrow> Inl (TableError ''error when searching for tag filter prefix'' pfx e)
      | None \<Rightarrow> Inr tsids)"
| "updateTSIDsByOrSuffix_loop P err pfx (item # rest) tsids =
     (if \<not> HasPrefix item pfx then Inr tsids
      else (case InitOnlyTail P item (drop (length pfx) item) of
              Inl e \<Rightarrow> Inl (External e)
            | Inr ids \<Rightarrow> updateTSIDsByOrSuffix_loop P err pfx rest (tsids \<union> set ids)))"

definition updateTSIDsByOrSuffix ::
  "pkg \<Rightarrow> indexSearch \<Rightarrow> bytes \<Rightarrow> tsid set \<Rightarrow> error + tsid set" where
  "updateTSIDsByOrSuffix P is pfx tsids =
     updateTSIDsByOrSuffix_loop P (tsError is) pfx (Seek (items is) pfx) tsids"

fun updateTSIDsByOrSuffixes_loop ::
  "pkg \<Rightarrow> indexSearch \<Rightarrow> bytes \<Rightarrow> bytes list \<Rightarrow> tsid set \<Rightarrow> error + tsid set" where
  "updateTSIDsByOrSuffixes_loop P is pfx [] tsids = Inr tsids"
| "updateTSIDsByOrSuffixes_loop P is pfx (orSuffix # others) tsids =
     (case updateTSIDsByOrSuffix P is (pfx @ orSuffix @ [tagSeparatorChar P]) tsids of
        Inl e \<Rightarrow> Inl e
      | Inr tsids' \<Rightarrow> updateTSIDsByOrSuffixes_loop P is pfx others tsids')"

definition updateTSIDsByOrSuffixesOfTagFilter ::
  "pkg \<Rightarrow> indexSearch \<Rightarrow> tagFilter \<Rightarrow> tsid set \<Rightarrow> error + tsid set" where
  "updateTSIDsByOrSuffixesOfTagFilter P is tf tsids =
     (if isNegative tf then Inl (Panic BugIsNegative)
      else updateTSIDsByOrSuffixes_loop P is (prefix tf) (orSuffixes tf) tsids)"

text \<open>
  The body of the loop of \<open>getTSIDsForTagFilterSlow\<close>, for one item: what the loop
  does next. \<open>Fail\<close> returns the error, \<open>Done\<close> returns nil (the item is outside the
  prefix), \<open>Continue\<close> goes on to the next item with the new \<open>prevMatch\<close> and
  \<open>prevMatchingSuffix\<close> after passing the given TSIDs to \<open>f\<close>, and \<open>Reseek\<close> clears
  \<open>prevMatch\<close> and seeks to the given key.
\<close>

datatype action = Fail error | Done | Continue bool bytes "tsid list" | Reseek bytes

text \<open>The TSIDs of a row that pass the optional \<open>filter\<close>, and \<open>mp.HasCommonTSIDs\<close>.\<close>

definition filterTSIDs :: "tsid set option \<Rightarrow> tsid list \<Rightarrow> tsid list" where
  "filterTSIDs flt ids = (case flt of None \<Rightarrow> ids | Some s \<Rightarrow> filter (\<lambda>t. t \<in> s) ids)"

definition HasCommonTSIDs :: "tsid list \<Rightarrow> tsid set \<Rightarrow> bool" where
  "HasCommonTSIDs ids s = (\<exists>t \<in> set ids. t \<in> s)"

definition getTSIDsForTagFilterSlow_row ::
  "pkg \<Rightarrow> tagFilter \<Rightarrow> tsid set option \<Rightarrow> bool \<Rightarrow> bytes \<Rightarrow> bytes \<Rightarrow> action" where
  "getTSIDsForTagFilterSlow_row P tf flt prevMatch prevMatchingSuffix item =
     (if \<not> HasPrefix item (prefix tf) then Done
      else
        let tail = drop (length (prefix tf)) item;
            n = IndexByte tail (tagSeparatorChar P)
        in if n < 0 then Fail (InvalidTagToTSIDsLine item (tagSeparatorChar P))
           else
             let suffix = take (nat n + 1) tail;
                 tail' = drop (nat n + 1) tail
             in (case InitOnlyTail P item tail' of
                   Inl e \<Rightarrow> Fail (External e)
                 | Inr ids \<Rightarrow>
                     if prevMatch \<and> suffix = prevMatchingSuffix
                     then Continue prevMatch prevMatchingSuffix (filterTSIDs flt ids)
                     else if (case flt of None \<Rightarrow> False | Some s \<Rightarrow> \<not> HasCommonTSIDs ids s)
                     then Continue prevMatch prevMatchingSuffix []
                     else (case matchSuffix P tf suffix of
                             Inl e \<Rightarrow> Fail (MatchSuffixError suffix e)
                           | Inr ok \<Rightarrow>
                               if \<not> ok then
                                 (if length ids < MaxTSIDsPerRow P div 2
                                  then Continue False prevMatchingSuffix []
                                  else
                                    let kb = take (length item - length tail') item
                                    in if kb = [] \<or> last kb \<noteq> tagSeparatorChar P
                                          \<or> tagSeparatorChar P \<ge> 255
                                       then Fail (DataCorruption kb (tagSeparatorChar P))
                                       else Reseek (butlast kb @ [last kb + 1]))
                               else Continue True suffix (filterTSIDs flt ids))))"

text \<open>
  The loop itself. The table is sorted and the key of a \<open>Reseek\<close> is greater than the
  current item, so the seek moves forward: it is taken in the items ahead of the cursor
  (lemmas \<open>Seek_forward\<close> and \<open>Reseek_forward\<close> below). The callback \<open>f\<close> is \<open>tsids.Add\<close> at the only call.
\<close>

function getTSIDsForTagFilterSlow_loop ::
  "pkg \<Rightarrow> string option \<Rightarrow> tagFilter \<Rightarrow> tsid set option \<Rightarrow> bool \<Rightarrow> bytes
     \<Rightarrow> bytes list \<Rightarrow> tsid set \<Rightarrow> error + tsid set" where
  "getTSIDsForTagFilterSlow_loop P err tf flt prevMatch prevMatchingSuffix [] tsids =
     (case err of
        Some e \<Rightarrow> Inl (TableError ''error when searching for tag filter prefix'' (prefix tf) e)
      | None \<Rightarrow> Inr tsids)"
| "getTSIDsForTagFilterSlow_loop P err tf flt prevMatch prevMatchingSuffix (item # rest) tsids =
     (case getTSIDsForTagFilterSlow_row P tf flt prevMatch prevMatchingSuffix item of
        Fail e \<Rightarrow> Inl e
      | Done \<Rightarrow> Inr tsids
      | Continue prevMatch' suffix' ids \<Rightarrow>
          getTSIDsForTagFilterSlow_loop P err tf flt prevMatch' suffix' rest (tsids \<union> set ids)
      | Reseek kb \<Rightarrow>
          getTSIDsForTagFilterSlow_loop P err tf flt False prevMatchingSuffix (Seek rest kb) tsids)"
  by pat_completeness auto
termination
  by (relation "measure (\<lambda>(P, err, tf, flt, pm, ps, cur, tsids). length cur)")
     (auto simp: Seek_def intro: le_imp_less_Suc length_dropWhile_le)

definition getTSIDsForTagFilterSlow ::
  "pkg \<Rightarrow> indexSearch \<Rightarrow> tagFilter \<Rightarrow> tsid set option \<Rightarrow> tsid set \<Rightarrow> error + tsid set" where
  "getTSIDsForTagFilterSlow P is tf flt tsids =
     (if orSuffixes tf \<noteq> [] then Inl (Panic BugOrSuffixes)
      else getTSIDsForTagFilterSlow_loop P (tsError is) tf flt False []
             (Seek (items is) (prefix tf)) tsids)"

definition searchTSIDsByTagFilter :: "pkg \<Rightarrow> indexSearch \<Rightarrow> tagFilter \<Rightarrow> error + tsid set" where
  "searchTSIDsByTagFilter P is tf =
     (if isNegative tf then Inl (Panic BugIsNegative)
      else if orSuffixes tf \<noteq> [] then
        (case updateTSIDsByOrSuffixesOfTagFilter P is tf {} of
           Inl e \<Rightarrow> Inl (wrap FastPathError e)
         | Inr tsids \<Rightarrow> Inr tsids)
      else
        (case getTSIDsForTagFilterSlow P is tf None {} of
           Inl e \<Rightarrow> Inl (wrap SlowPathError e)
         | Inr tsids \<Rightarrow> Inr tsids))"

definition getTSIDsByTagFilter :: "pkg \<Rightarrow> indexSearch \<Rightarrow> tagFilter \<Rightarrow> error + tsid set" where
  "getTSIDsByTagFilter P is tf =
     (if \<not> isNegative tf then searchTSIDsByTagFilter P is tf
      else
        (case getTSIDsByMeasurementName P is (name tf) of
           Inl e \<Rightarrow> Inl e
         | Inr tsids \<Rightarrow>
             (case searchTSIDsByTagFilter P is (tf\<lparr>isNegative := False\<rparr>) of
                Inl e \<Rightarrow> Inl e
              | Inr m \<Rightarrow> Inr (tsids - m))))"

definition searchTSIDsByTagFilterAndDateRange ::
  "pkg \<Rightarrow> indexSearch \<Rightarrow> tagFilter \<Rightarrow> TimeRange \<Rightarrow> error + tsid set" where
  "searchTSIDsByTagFilterAndDateRange P is tf tr = getTSIDsByTagFilter P is tf"

section \<open>Measurement lookup and the set-valued evaluator\<close>

text \<open>\<open>ts.FirstItemWithPrefix\<close> of the external table: nil when the first item at or after
  the prefix carries it, \<open>io.EOF\<close> when there is none, the cursor's error otherwise.\<close>

definition FirstItemWithPrefix :: "indexSearch \<Rightarrow> bytes \<Rightarrow> error option" where
  "FirstItemWithPrefix is pfx =
     (case Seek (items is) pfx of
        [] \<Rightarrow> (case tsError is of Some e \<Rightarrow> Some (External e) | None \<Rightarrow> Some EOF)
      | item # rest \<Rightarrow> if HasPrefix item pfx then None else Some EOF)"

definition containsMeasurement :: "pkg \<Rightarrow> indexSearch \<Rightarrow> bytes \<Rightarrow> error + bool" where
  "containsMeasurement P is nm =
     (let compositeKey = marshalCompositeNamePrefix P [] nm;
          kb = marshalTagValueNoTrailingTagSeparator P
                 (MarshalCommonPrefix P [] (nsPrefixTagToTSIDs P)) compositeKey
      in (case FirstItemWithPrefix is kb of
            None \<Rightarrow> Inr True
          | Some EOF \<Rightarrow> Inr False
          | Some (External e) \<Rightarrow> Inl (TableError ''error when searching for prefix'' kb e)
          | Some e \<Rightarrow> Inl e))"

text \<open>A \<open>*uint64set.Set\<close> may be nil: \<open>None\<close>. The result of \<open>tf.Init\<close> is passed on
  unwrapped.\<close>

definition someSet :: "error + tsid set \<Rightarrow> error + tsid set option" where
  "someSet r = (case r of Inl e \<Rightarrow> Inl e | Inr s \<Rightarrow> Inr (Some s))"

definition isBinaryExpr :: "expr \<Rightarrow> bool" where
  "isBinaryExpr e = (case e of BinaryExpr op l r \<Rightarrow> True | _ \<Rightarrow> False)"

definition searchTSIDsByBinaryExpr ::
  "pkg \<Rightarrow> indexSearch \<Rightarrow> bytes \<Rightarrow> token \<Rightarrow> expr \<Rightarrow> expr \<Rightarrow> TimeRange
     \<Rightarrow> error + tsid set option" where
  "searchTSIDsByBinaryExpr P is nm op lhs rhs tr =
     (if isBinaryExpr lhs then Inr None
      else if isBinaryExpr rhs then Inr None
      else
        (case (case lhs of
                 VarRef k t \<Rightarrow> Some (k, t, rhs)
               | _ \<Rightarrow> (case rhs of VarRef k t \<Rightarrow> Some (k, t, lhs) | _ \<Rightarrow> None)) of
           None \<Rightarrow> someSet (searchTSIDsByTimeRange P is nm tr)
         | Some (k, t, v) \<Rightarrow>
             if t \<noteq> Tag then someSet (searchTSIDsByTimeRange P is nm tr)
             else
               (case (case v of
                        StringLiteral s \<Rightarrow> Some (tfInit P nm k s (op = NEQ) False)
                      | RegexLiteral s \<Rightarrow> Some (tfInit P nm k s (op = NEQREGEX) True)
                      | VarRef s t' \<Rightarrow> Some (tfInit P nm k s (op = NEQ) False)
                      | _ \<Rightarrow> None) of
                  None \<Rightarrow> someSet (searchTSIDsByTimeRange P is nm tr)
                | Some (Inl e) \<Rightarrow> Inl (External e)
                | Some (Inr tf) \<Rightarrow>
                    someSet (searchTSIDsByTagFilterAndDateRange P is tf tr))))"

fun searchTSIDsInternal ::
  "pkg \<Rightarrow> indexSearch \<Rightarrow> bytes \<Rightarrow> expr \<Rightarrow> TimeRange \<Rightarrow> error + tsid set option" where
  "searchTSIDsInternal P is nm NilExpr tr = someSet (searchTSIDsByTimeRange P is nm tr)"
| "searchTSIDsInternal P is nm (BinaryExpr op lhs rhs) tr =
     (if op = AND \<or> op = OR then
        (case searchTSIDsInternal P is nm lhs tr of
           Inl e \<Rightarrow> Inl e
         | Inr ltsids \<Rightarrow>
             (case searchTSIDsInternal P is nm rhs tr of
                Inl e \<Rightarrow> Inl e
              | Inr rtsids \<Rightarrow>
                  (case ltsids of
                     None \<Rightarrow> Inr rtsids
                   | Some l \<Rightarrow>
                       (case rtsids of
                          None \<Rightarrow> Inr (Some l)
                        | Some r \<Rightarrow>
                            if op = AND then Inr (Some (l \<inter> r)) else Inr (Some (l \<union> r))))))
      else searchTSIDsByBinaryExpr P is nm op lhs rhs tr)"
| "searchTSIDsInternal P is nm (ParenExpr e) tr = searchTSIDsInternal P is nm e tr"
| "searchTSIDsInternal P is nm (BooleanLiteral b) tr =
     (if b then someSet (searchTSIDsByTimeRange P is nm tr) else Inr None)"
| "searchTSIDsInternal P is nm e tr = Inr None"

text \<open>\<open>searchTSIDs\<close>. The set package treats a nil set as empty: subtracting from it
  leaves it nil and \<open>AppendTo\<close> appends nothing; otherwise \<open>AppendTo\<close> lists the members
  in ascending order.\<close>

definition clampMin :: "TimeRange \<Rightarrow> TimeRange" where
  "clampMin tr = (if Min_tr tr < 0 then tr\<lparr>Min_tr := 0\<rparr> else tr)"

definition searchTSIDs ::
  "pkg \<Rightarrow> indexSearch \<Rightarrow> bytes \<Rightarrow> expr \<Rightarrow> TimeRange \<Rightarrow> error + tsid list" where
  "searchTSIDs P is nm e tr =
     (case containsMeasurement P is nm of
        Inl err \<Rightarrow> Inl err
      | Inr ok \<Rightarrow>
          if \<not> ok then Inr []
          else
            (case searchTSIDsInternal P is nm e (clampMin tr) of
               Inl err \<Rightarrow> Inl err
             | Inr None \<Rightarrow> Inr []
             | Inr (Some tsids) \<Rightarrow> Inr (sorted_list_of_set (tsids - getDeletedTSIDs is))))"

section \<open>The iterator-valued evaluator\<close>

text \<open>
  The iterators of package \<open>index\<close> are built by constructors that the search code only
  calls; they are kept as terms. \<open>NilIterator\<close> is the nil interface value, and
  \<open>SeriesIDExprIteratorWithSeries itr e\<close> is
  \<open>index.NewSeriesIDExprIteratorWithSeries(itr.Ids(), e)\<close>.
\<close>

datatype seriesIDIterator =
    NilIterator
  | SeriesIDSetIterator "tsid set"
  | SeriesIDExprIterator seriesIDIterator expr
  | SeriesIDExprIteratorWithSeries seriesIDIterator expr
  | IntersectSeriesIDIterators seriesIDIterator seriesIDIterator
  | UnionSeriesIDIterators seriesIDIterator seriesIDIterator

text \<open>A result together with the value of \<open>*tsids\<close> after the call.\<close>

type_synonym itrResult = "(error + seriesIDIterator) \<times> tsid set option"


text \<open>\<open>genSeriesIDIterator\<close> dereferences \<open>ids\<close>.\<close>

definition genSeriesIDIterator :: "tsid set option \<Rightarrow> expr \<Rightarrow> error + seriesIDIterator" where
  "genSeriesIDIterator ids n =
     (case ids of
        None \<Rightarrow> Inl (Panic NilDereference)
      | Some s \<Rightarrow> Inr (SeriesIDExprIterator (SeriesIDSetIterator s) n))"

text \<open>The first lines of \<open>seriesByAllIdsIterator\<close>, \<open>newSeriesIDSetIterator\<close> and
  \<open>searchAllTSIDsByName\<close>: fill \<open>*tsids\<close> when it is nil.\<close>

definition ensureTSIDs ::
  "pkg \<Rightarrow> indexSearch \<Rightarrow> bytes \<Rightarrow> TimeRange \<Rightarrow> tsid set option \<Rightarrow> error + tsid set" where
  "ensureTSIDs P is nm tr tsids =
     (case tsids of None \<Rightarrow> searchTSIDsByTimeRange P is nm tr | Some s \<Rightarrow> Inr s)"


definition searchAllTSIDsByName ::
  "pkg \<Rightarrow> indexSearch \<Rightarrow> bytes \<Rightarrow> TimeRange \<Rightarrow> expr \<Rightarrow> tsid set option \<Rightarrow> itrResult" where
  "searchAllTSIDsByName P is nm tr n tsids =
     (case ensureTSIDs P is nm tr tsids of
        Inl e \<Rightarrow> (Inl e, None)
      | Inr s \<Rightarrow> (genSeriesIDIterator (Some s) n, Some s))"





definition Clone :: "tsid set option \<Rightarrow> tsid set" where
  "Clone s = (case s of None \<Rightarrow> {} | Some x \<Rightarrow> x)"

definition seriesByBinaryExprVarRef ::
  "pkg \<Rightarrow> indexSearch \<Rightarrow> bytes \<Rightarrow> bytes \<Rightarrow> bytes \<Rightarrow> bool \<Rightarrow> error + seriesIDIterator" where
  "seriesByBinaryExprVarRef P is nm k v equal =
     (case tfInit P nm k [46, 42] False True of
        Inl e \<Rightarrow> Inl (External e)
      | Inr tf1 \<Rightarrow>
          (case tfInit P nm v [46, 42] False True of
             Inl e \<Rightarrow> Inl (External e)
           | Inr tf2 \<Rightarrow>
               (case searchTSIDsByTagFilterAndDateRange P is tf1 \<lparr>Min_tr = 0, Max_tr = 0\<rparr> of
                  Inl e \<Rightarrow> Inl e
                | Inr set1 \<Rightarrow>
                    (case searchTSIDsByTagFilterAndDateRange P is tf2 \<lparr>Min_tr = 0, Max_tr = 0\<rparr> of
                       Inl e \<Rightarrow> Inl e
                     | Inr set2 \<Rightarrow>
                         if equal then Inr (SeriesIDSetIterator (set1 \<inter> set2))
                         else Inr (SeriesIDSetIterator (set1 - set2))))))"

definition seriesByTagFilter ::
  "pkg \<Rightarrow> indexSearch \<Rightarrow> TimeRange \<Rightarrow> string + tagFilter \<Rightarrow> error + seriesIDIterator" where
  "seriesByTagFilter P is tr r =
     (case r of
        Inl e \<Rightarrow> Inl (External e)
      | Inr tf \<Rightarrow>
          (case searchTSIDsByTagFilterAndDateRange P is tf tr of
             Inl e \<Rightarrow> Inl e
           | Inr ids \<Rightarrow> Inr (SeriesIDSetIterator ids)))"

definition seriesByBinaryExpr ::
  "pkg \<Rightarrow> indexSearch \<Rightarrow> bytes \<Rightarrow> token \<Rightarrow> expr \<Rightarrow> expr \<Rightarrow> TimeRange \<Rightarrow> tsid set option
     \<Rightarrow> bool \<Rightarrow> itrResult" where
  "seriesByBinaryExpr P is nm op lhs rhs tr tsids singleSeries =
     (if isBinaryExpr lhs then searchAllTSIDsByName P is nm tr (BinaryExpr op lhs rhs) tsids
      else if isBinaryExpr rhs then searchAllTSIDsByName P is nm tr (BinaryExpr op lhs rhs) tsids
      else
        (case (case lhs of
                 VarRef k t \<Rightarrow> Some (k, t, rhs)
               | _ \<Rightarrow> (case rhs of VarRef k t \<Rightarrow> Some (k, t, lhs) | _ \<Rightarrow> None)) of
           None \<Rightarrow> searchAllTSIDsByName P is nm tr (BinaryExpr op lhs rhs) tsids
         | Some (k, t, v) \<Rightarrow>
             if t \<noteq> Tag then (Inl ErrFieldExpr, tsids)
             else if singleSeries then (Inr (SeriesIDSetIterator (Clone tsids)), tsids)
             else
               (case v of
                  StringLiteral s \<Rightarrow>
                    (seriesByTagFilter P is tr (tfInit P nm k s (op \<noteq> EQ) False), tsids)
                | RegexLiteral s \<Rightarrow>
                    (seriesByTagFilter P is tr (tfInit P nm k s (op \<noteq> EQREGEX) True), tsids)
                | VarRef s t' \<Rightarrow> (seriesByBinaryExprVarRef P is nm k s (op = EQ), tsids)
                | _ \<Rightarrow> searchAllTSIDsByName P is nm tr (BinaryExpr op lhs rhs) tsids)))"






section \<open>Series keys\<close>

text \<open>
  The loop of \<open>getAllSeriesKeys\<close>. An item is the namespace byte, the 8 bytes of the
  TSID and the series key, whose last two bytes are its version. Slicing or decoding
  an item that is too short panics.
\<close>

fun getAllSeriesKeys_loop ::
  "pkg \<Rightarrow> indexSearch \<Rightarrow> bytes \<Rightarrow> bytes list \<Rightarrow> bytes list \<Rightarrow> error + bytes list" where
  "getAllSeriesKeys_loop P is pfx [] keys =
     (case tsError is of
        Some e \<Rightarrow> Inl (TableError ''error when getSeriesCardinality for prefix'' pfx e)
      | None \<Rightarrow> Inr keys)"
| "getAllSeriesKeys_loop P is pfx (item # rest) keys =
     (if \<not> HasPrefix item pfx then Inr keys
      else if item = [] then Inl (Panic SliceBounds)
      else
        let tail = tl item
        in if length tail < 8 then Inl (Panic IndexOutOfRange)
           else if UnmarshalUint64 tail \<in> getDeletedTSIDs is
           then getAllSeriesKeys_loop P is pfx rest keys
           else
             let k = drop 8 tail
             in (case MeasurementName P k of
                   Inl e \<Rightarrow> Inl (External e)
                 | Inr mn \<Rightarrow>
                     if length k < 2 then Inl (Panic SliceBounds)
                     else
                       (case getVersion is mn of
                          Some version \<Rightarrow>
                            if UnmarshalUint16 (drop (length k - 2) k) \<noteq> version
                            then getAllSeriesKeys_loop P is pfx rest keys
                            else getAllSeriesKeys_loop P is pfx rest (keys @ [k])
                        | None \<Rightarrow> getAllSeriesKeys_loop P is pfx rest (keys @ [k]))))"

definition getAllSeriesKeys :: "pkg \<Rightarrow> indexSearch \<Rightarrow> error + bytes list" where
  "getAllSeriesKeys P is =
     (let pfx = MarshalCommonPrefix P [] (nsPrefixTSIDToKey P)
      in getAllSeriesKeys_loop P is pfx (Seek (items is) pfx) [])"

section \<open>Grouped series\<close>

type_synonym PointTags = "(bytes \<times> bytes) list"

record TagSetInfo =
  ref :: int
  IDs :: "tsid list"
  Filters :: "expr list"
  SeriesKeys :: "bytes list"
  TagsVec :: "PointTags list"
  key :: bytes

text \<open>\<open>a[i], a[j] = a[j], a[i]\<close>; \<open>None\<close> when an index is out of range (Go panics).\<close>

definition swapAt :: "'a list \<Rightarrow> int \<Rightarrow> int \<Rightarrow> 'a list option" where
  "swapAt xs i j =
     (if 0 \<le> i \<and> i < int (length xs) \<and> 0 \<le> j \<and> j < int (length xs)
      then Some (xs[nat i := xs ! nat j, nat j := xs ! nat i])
      else None)"

definition TagSetInfo_Swap :: "TagSetInfo \<Rightarrow> int \<Rightarrow> int \<Rightarrow> error + TagSetInfo" where
  "TagSetInfo_Swap t i j =
     (case swapAt (SeriesKeys t) i j of
        None \<Rightarrow> Inl (Panic IndexOutOfRange)
      | Some sk \<Rightarrow>
          (case swapAt (IDs t) i j of
             None \<Rightarrow> Inl (Panic IndexOutOfRange)
           | Some ids \<Rightarrow>
               (case swapAt (TagsVec t) i j of
                  None \<Rightarrow> Inl (Panic IndexOutOfRange)
                | Some tv \<Rightarrow>
                    (case swapAt (Filters t) i j of
                       None \<Rightarrow> Inl (Panic IndexOutOfRange)
                     | Some fl \<Rightarrow>
                         Inr (t\<lparr>SeriesKeys := sk, IDs := ids, TagsVec := tv, Filters := fl\<rparr>)))))"

text \<open>The inner loop of \<open>GroupSeries.Reverse\<close> on one group.\<close>

function reverseGroup_loop :: "TagSetInfo \<Rightarrow> int \<Rightarrow> int \<Rightarrow> error + TagSetInfo" where
  "reverseGroup_loop tt i j =
     (if i < j then
        (case swapAt (IDs tt) i j of
           None \<Rightarrow> Inl (Panic IndexOutOfRange)
         | Some ids \<Rightarrow>
             (case swapAt (Filters tt) i j of
                None \<Rightarrow> Inl (Panic IndexOutOfRange)
              | Some fl \<Rightarrow>
                  (case swapAt (SeriesKeys tt) i j of
                     None \<Rightarrow> Inl (Panic IndexOutOfRange)
                   | Some sk \<Rightarrow>
                       (case swapAt (TagsVec tt) i j of
                          None \<Rightarrow> Inl (Panic IndexOutOfRange)
                        | Some tv \<Rightarrow>
                            reverseGroup_loop
                              (tt\<lparr>IDs := ids, Filters := fl, SeriesKeys := sk, TagsVec := tv\<rparr>)
                              (i + 1) (j - 1)))))
      else Inr tt)"
  by pat_completeness auto
termination
  by (relation "measure (\<lambda>(tt, i, j). nat (j - i))") auto

definition reverseGroup :: "TagSetInfo \<Rightarrow> error + TagSetInfo" where
  "reverseGroup tt = reverseGroup_loop tt 0 (int (length (IDs tt)) - 1)"

text \<open>
  A \<open>GroupSeries\<close> is a slice of pointers to groups: the groups live in a store, and
  the slice is the list of their addresses. The same address may occur more than once. A
  nil pointer is an address at which the store holds nothing. The arrays of two groups
  at different addresses share no storage.
\<close>

type_synonym addr = nat
type_synonym store = "addr \<Rightarrow> TagSetInfo option"

text \<open>The second loop of \<open>Reverse\<close>: the group at each position of the slice is reversed
  in place, in the order of the slice.\<close>

fun reverseGroups :: "store \<Rightarrow> addr list \<Rightarrow> error + store" where
  "reverseGroups st [] = Inr st"
| "reverseGroups st (p # ps) =
     (case st p of
        None \<Rightarrow> Inl (Panic NilDereference)
      | Some tt \<Rightarrow>
          (case reverseGroup tt of
             Inl e \<Rightarrow> Inl e
           | Inr tt' \<Rightarrow> reverseGroups (st(p \<mapsto> tt')) ps))"

text \<open>
  \<open>sort.Sort(sort.Reverse(gs))\<close> sorts the slice by the reversed \<open>Less\<close>, that is by
  descending \<open>key\<close> of the groups pointed to. The library sorts a short slice by
  insertion, which leaves groups with equal keys in their order, as the insertion here
  does; for a long slice it promises no order among equal keys.
\<close>

definition GroupSeries_Less :: "store \<Rightarrow> addr \<Rightarrow> addr \<Rightarrow> bool" where
  "GroupSeries_Less st a b =
     (case st a of
        None \<Rightarrow> False
      | Some x \<Rightarrow> (case st b of None \<Rightarrow> False | Some y \<Rightarrow> key x < key y))"

fun insertReverse :: "store \<Rightarrow> addr \<Rightarrow> addr list \<Rightarrow> addr list" where
  "insertReverse st g [] = [g]"
| "insertReverse st g (x # xs) =
     (if GroupSeries_Less st g x then x # insertReverse st g xs else g # x # xs)"

definition sortReverse :: "store \<Rightarrow> addr list \<Rightarrow> addr list" where
  "sortReverse st gs = foldr (insertReverse st) gs []"

text \<open>\<open>Reverse\<close> returns the store and the slice as it leaves them. \<open>Less\<close> and \<open>Len\<close>
  dereference every pointer of the slice, so a nil pointer panics.\<close>

definition GroupSeries_Reverse :: "store \<Rightarrow> addr list \<Rightarrow> error + store \<times> addr list" where
  "GroupSeries_Reverse st gs =
     (if \<exists>p \<in> set gs. st p = None then Inl (Panic NilDereference)
      else
        (case reverseGroups st (sortReverse st gs) of
           Inl e \<Rightarrow> Inl e
         | Inr st' \<Rightarrow> Inr (st', sortReverse st gs)))"

section \<open>A small index, for running the model\<close>

text \<open>
  One value of the parameters and one table, used only to evaluate the model at concrete
  inputs. The row layout follows the specification: namespace byte, escaped composite
  key (marker, length of the measurement name, name, tag key), separator, escaped tag
  value, separator, TSIDs as 8-byte big-endian words. The bytes 0, 1 and 2 are escaped;
  the separator is 1. The demonstration matcher knows the pattern \<open>.*\<close> and
  otherwise compares the value literally.
\<close>

fun escapeBytes :: "bytes \<Rightarrow> bytes" where
  "escapeBytes [] = []"
| "escapeBytes (ch # bs) =
     (if ch = 0 then [0, 48] else if ch = 1 then [0, 49] else if ch = 2 then [0, 50] else [ch])
     @ escapeBytes bs"

fun parseTSIDs :: "bytes \<Rightarrow> tsid list" where
  "parseTSIDs (a # b # c # d # e # f # g # h # rest) =
     UnmarshalUint64 [a, b, c, d, e, f, g, h] # parseTSIDs rest"
| "parseTSIDs bs = []"

definition demoInitOnlyTail :: "bytes \<Rightarrow> bytes \<Rightarrow> string + tsid list" where
  "demoInitOnlyTail item tail =
     (if tail = [] then Inl ''missing tsid in the tag->tsids row''
      else if length tail mod 8 \<noteq> 0 then Inl ''invalid tail length''
      else Inr (parseTSIDs tail))"

definition demoCompositeName :: "bytes \<Rightarrow> bytes \<Rightarrow> bytes" where
  "demoCompositeName dst nm = dst @ [254, of_nat (length nm)] @ nm"

definition demoTfInit :: "bytes \<Rightarrow> bytes \<Rightarrow> bytes \<Rightarrow> bool \<Rightarrow> bool \<Rightarrow> string + tagFilter" where
  "demoTfInit nm k v neg re =
     Inr \<lparr>name = nm, tagKey = k, tagValue = v, isNegative = neg, isRegexp = re,
          prefix = [2] @ escapeBytes (demoCompositeName [] nm @ k) @ [1],
          orSuffixes = (if re then [] else [escapeBytes v])\<rparr>"

definition demoMatchSuffix :: "tagFilter \<Rightarrow> bytes \<Rightarrow> string + bool" where
  "demoMatchSuffix tf b =
     (if b = [] \<or> last b \<noteq> 1 then Inl ''unexpected end of b''
      else Inr ((tagValue tf = [46, 42] \<or> butlast b = escapeBytes (tagValue tf))
                  \<noteq> isNegative tf))"

definition demoMeasurementName :: "bytes \<Rightarrow> string + bytes" where
  "demoMeasurementName k =
     (case k of
        [] \<Rightarrow> Inl ''too small data for measurement''
      | n # rest \<Rightarrow>
          if length rest < unat n then Inl ''too small data for measurement''
          else Inr (take (unat n) rest))"

definition demoPkg :: pkg where
  "demoPkg =
     \<lparr>tagSeparatorChar = 1, nsPrefixTagToTSIDs = 2, nsPrefixTSIDToKey = 3, MaxTSIDsPerRow = 4,
      MarshalCommonPrefix = (\<lambda>dst ns. dst @ [ns]),
      marshalCompositeNamePrefix = demoCompositeName,
      marshalTagValue = (\<lambda>dst src. dst @ escapeBytes src @ [1]),
      marshalTagValueNoTrailingTagSeparator = (\<lambda>dst src. dst @ escapeBytes src),
      tfInit = demoTfInit, matchSuffix = demoMatchSuffix,
      InitOnlyTail = demoInitOnlyTail, MeasurementName = demoMeasurementName\<rparr>"

text \<open>Measurement \<open>cpu\<close> (99 112 117) with tag \<open>host\<close> (104 111 115 116): value \<open>a\<close> (97)
  for the TSIDs 1, 2, 3 and value \<open>b\<close> (98) for the TSIDs 4, 5.\<close>

definition cpu :: bytes where
  "cpu = [99, 112, 117]"

definition host :: bytes where
  "host = [104, 111, 115, 116]"

definition demoItems :: "bytes list" where
  "demoItems =
     [[2, 254, 3, 99, 112, 117, 104, 111, 115, 116, 1, 97, 1,
         0, 0, 0, 0, 0, 0, 0, 1, 0, 0, 0, 0, 0, 0, 0, 2, 0, 0, 0, 0, 0, 0, 0, 3],
      [2, 254, 3, 99, 112, 117, 104, 111, 115, 116, 1, 98, 1,
         0, 0, 0, 0, 0, 0, 0, 4, 0, 0, 0, 0, 0, 0, 0, 5]]"

definition demoIndex :: indexSearch where
  "demoIndex =
     \<lparr>items = demoItems, tsError = None, getDeletedTSIDs = {}, getVersion = (\<lambda>mn. None)\<rparr>"

text \<open>The compiled filter \<open>host != 'a'\<close> on measurement \<open>cpu\<close>.\<close>

definition notHostA :: tagFilter where
  "notHostA =
     \<lparr>name = cpu, tagKey = host, tagValue = [97], isNegative = True, isRegexp = False,
      prefix = [2, 254, 3, 99, 112, 117, 104, 111, 115, 116, 1], orSuffixes = [[97]]\<rparr>"



text \<open>The rows of the demonstration table, a row that lacks its separator, and the
  slow-path filter \<open>host =~ b\<close> (no literal alternatives were extracted).\<close>

definition hostLikeB :: tagFilter where
  "hostLikeB =
     \<lparr>name = cpu, tagKey = host, tagValue = [98], isNegative = False, isRegexp = True,
      prefix = [2, 254, 3, 99, 112, 117, 104, 111, 115, 116, 1], orSuffixes = []\<rparr>"

definition rowA :: bytes where
  "rowA = [2, 254, 3, 99, 112, 117, 104, 111, 115, 116, 1, 97, 1,
            0, 0, 0, 0, 0, 0, 0, 1, 0, 0, 0, 0, 0, 0, 0, 2, 0, 0, 0, 0, 0, 0, 0, 3]"

definition rowB :: bytes where
  "rowB = [2, 254, 3, 99, 112, 117, 104, 111, 115, 116, 1, 98, 1,
            0, 0, 0, 0, 0, 0, 0, 4, 0, 0, 0, 0, 0, 0, 0, 5]"

definition corruptRow :: bytes where
  "corruptRow = [2, 254, 3, 99, 112, 117, 104, 111, 115, 116, 1, 99]"

definition corruptIndex :: indexSearch where
  "corruptIndex =
     \<lparr>items = [rowA, rowB, corruptRow], tsError = None, getDeletedTSIDs = {},
      getVersion = (\<lambda>mn. None)\<rparr>"

definition rowA_tail :: bytes where
  "rowA_tail = [0, 0, 0, 0, 0, 0, 0, 1, 0, 0, 0, 0, 0, 0, 0, 2, 0, 0, 0, 0, 0, 0, 0, 3]"

definition rowA_key :: bytes where
  "rowA_key = [2, 254, 3, 99, 112, 117, 104, 111, 115, 116, 1, 97, 1]"


definition hostEqA :: expr where
  "hostEqA = BinaryExpr EQ (VarRef host Tag) (StringLiteral [97])"

definition sumEq3 :: expr where
  "sumEq3 = BinaryExpr EQ (BinaryExpr ADD (VarRef [97] Float) (VarRef [98] Float)) (OtherExpr 3)"

definition anyTime :: TimeRange where
  "anyTime = \<lparr>Min_tr = 0, Max_tr = 100\<rparr>"

text \<open>Three groups, with the keys \<open>a\<close>, \<open>b\<close> and \<open>c\<close>.\<close>

definition groupA :: TagSetInfo where
  "groupA =
     \<lparr>ref = 1, IDs = [1, 2], Filters = [NilExpr, BooleanLiteral True],
      SeriesKeys = [[10], [20]], TagsVec = [[(host, [97])], [(host, [98])]], key = [97]\<rparr>"

definition groupB :: TagSetInfo where
  "groupB =
     \<lparr>ref = 1, IDs = [3, 4, 5], Filters = [NilExpr, NilExpr, BooleanLiteral True],
      SeriesKeys = [[30], [40], [50]], TagsVec = [[], [(host, [97])], [(host, [98])]],
      key = [98]\<rparr>"

definition groupC :: TagSetInfo where
  "groupC =
     \<lparr>ref = 1, IDs = [6], Filters = [NilExpr], SeriesKeys = [[60]], TagsVec = [[]],
      key = [99]\<rparr>"

text \<open>Rows of the TSID-to-key namespace: the series 1 (a key of version 1), 2 and 3
  (keys of version 2); the series 3 is deleted and the current version of \<open>cpu\<close> is 2.\<close>

definition keyRow1 :: bytes where
  "keyRow1 = [3, 0, 0, 0, 0, 0, 0, 0, 1, 3, 99, 112, 117, 0, 1]"

definition keyRow2 :: bytes where
  "keyRow2 = [3, 0, 0, 0, 0, 0, 0, 0, 2, 3, 99, 112, 117, 0, 2]"

definition keyRow3 :: bytes where
  "keyRow3 = [3, 0, 0, 0, 0, 0, 0, 0, 3, 3, 99, 112, 117, 7, 0, 2]"

definition keysIndex :: indexSearch where
  "keysIndex =
     \<lparr>items = [rowA, rowB, keyRow1, keyRow2, keyRow3], tsError = None, getDeletedTSIDs = {3},
      getVersion = (\<lambda>mn. if mn = cpu then Some 2 else None)\<rparr>"

text \<open>The compiled filter \<open>host = 'a'\<close>, with its literal alternative, and the filter
  \<open>host =~ a\<close> for the slow path, with none.\<close>

definition hostIsA :: tagFilter where
  "hostIsA =
     \<lparr>name = cpu, tagKey = host, tagValue = [97], isNegative = False, isRegexp = False,
      prefix = [2, 254, 3, 99, 112, 117, 104, 111, 115, 116, 1], orSuffixes = [[97]]\<rparr>"

definition hostLikeA :: tagFilter where
  "hostLikeA =
     \<lparr>name = cpu, tagKey = host, tagValue = [97], isNegative = False, isRegexp = True,
      prefix = [2, 254, 3, 99, 112, 117, 104, 111, 115, 116, 1], orSuffixes = []\<rparr>"

text \<open>A store that holds the three groups at the addresses 0, 1 and 2, and at the
  address 3 a second group with the key \<open>a\<close>.\<close>

definition groupStore :: store where
  "groupStore = Map.empty(0 \<mapsto> groupA, 1 \<mapsto> groupB, 2 \<mapsto> groupC, 3 \<mapsto> groupA)"

section \<open>Notions used to state the properties\<close>

text \<open>What the claim calls reversing a group in lockstep.\<close>

definition reverseInLockstep :: "TagSetInfo \<Rightarrow> TagSetInfo" where
  "reverseInLockstep t =
     t\<lparr>IDs := rev (IDs t), Filters := rev (Filters t), SeriesKeys := rev (SeriesKeys t),
       TagsVec := rev (TagsVec t)\<rparr>"

text \<open>The four arrays of a group are parallel.\<close>

definition parallel :: "TagSetInfo \<Rightarrow> bool" where
  "parallel t \<longleftrightarrow>
     length (Filters t) = length (IDs t) \<and> length (SeriesKeys t) = length (IDs t)
     \<and> length (TagsVec t) = length (IDs t)"

text \<open>The swaps of the loop of \<open>Reverse\<close> on one array.\<close>

function swapBetween :: "'a list \<Rightarrow> int \<Rightarrow> int \<Rightarrow> 'a list" where
  "swapBetween xs i j =
     (if i < j then swapBetween (xs[nat i := xs ! nat j, nat j := xs ! nat i]) (i + 1) (j - 1)
      else xs)"
  by pat_completeness auto
termination
  by (relation "measure (\<lambda>(xs, i, j). nat (j - i))") auto

declare swapBetween.simps [simp del]

text \<open>The series key and the TSID stored in a TSID-to-key row, the version a key carries
  in its last two bytes, and what the claim calls a key that is neither deleted nor
  stale.\<close>

definition seriesKeyOf :: "bytes \<Rightarrow> bytes" where
  "seriesKeyOf item = drop 8 (tl item)"

definition tsidOf :: "bytes \<Rightarrow> tsid" where
  "tsidOf item = UnmarshalUint64 (tl item)"

definition keyVersionOf :: "bytes \<Rightarrow> 16 word" where
  "keyVersionOf k = UnmarshalUint16 (drop (length k - 2) k)"

definition liveSeriesKey :: "pkg \<Rightarrow> indexSearch \<Rightarrow> bytes \<Rightarrow> bool" where
  "liveSeriesKey P is item \<longleftrightarrow>
     tsidOf item \<notin> getDeletedTSIDs is
     \<and> (case MeasurementName P (seriesKeyOf item) of
          Inl e \<Rightarrow> False
        | Inr mn \<Rightarrow>
            (case getVersion is mn of
               None \<Rightarrow> True
             | Some version \<Rightarrow> keyVersionOf (seriesKeyOf item) = version))"

definition liveSeriesKeys :: "pkg \<Rightarrow> indexSearch \<Rightarrow> bytes list" where
  "liveSeriesKeys P is =
     map seriesKeyOf
       (filter (liveSeriesKey P is)
          (filter (\<lambda>item. HasPrefix item (MarshalCommonPrefix P [] (nsPrefixTSIDToKey P)))
             (items is)))"

text \<open>A row that \<open>getAllSeriesKeys\<close> can decode: long enough for the namespace byte and
  the TSID and, unless its TSID is deleted, with a key whose measurement name parses and
  that holds the two bytes of a version.\<close>

definition decodableRow :: "pkg \<Rightarrow> indexSearch \<Rightarrow> bytes \<Rightarrow> bool" where
  "decodableRow P is item \<longleftrightarrow>
     9 \<le> length item
     \<and> (tsidOf item \<in> getDeletedTSIDs is
        \<or> (2 \<le> length (seriesKeyOf item)
           \<and> (case MeasurementName P (seriesKeyOf item) of Inl e \<Rightarrow> False | Inr mn \<Rightarrow> True)))"

text \<open>
  The tag value of a row under a prefix (the bytes up to the first separator), the bytes
  after that separator, the TSIDs they parse to, and the rows that the scans can decode.
  \<open>matchingTSIDs\<close> is what both paths of the claim are to return: the TSIDs of the rows
  under the prefix whose value is one of the literal values.
\<close>

definition rowValue :: "pkg \<Rightarrow> bytes \<Rightarrow> bytes \<Rightarrow> bytes" where
  "rowValue P pfx item =
     take (nat (IndexByte (drop (length pfx) item) (tagSeparatorChar P))) (drop (length pfx) item)"

definition rowTail :: "pkg \<Rightarrow> bytes \<Rightarrow> bytes \<Rightarrow> bytes" where
  "rowTail P pfx item =
     drop (nat (IndexByte (drop (length pfx) item) (tagSeparatorChar P)) + 1)
       (drop (length pfx) item)"

definition rowTSIDs :: "pkg \<Rightarrow> bytes \<Rightarrow> bytes \<Rightarrow> tsid set" where
  "rowTSIDs P pfx item =
     (case InitOnlyTail P item (rowTail P pfx item) of Inl e \<Rightarrow> {} | Inr ids \<Rightarrow> set ids)"

definition wellFormedRow :: "pkg \<Rightarrow> bytes \<Rightarrow> bytes \<Rightarrow> bool" where
  "wellFormedRow P pfx item \<longleftrightarrow>
     0 \<le> IndexByte (drop (length pfx) item) (tagSeparatorChar P)
     \<and> (case InitOnlyTail P item (rowTail P pfx item) of Inl e \<Rightarrow> False | Inr ids \<Rightarrow> True)"

definition matchingTSIDs :: "pkg \<Rightarrow> bytes \<Rightarrow> bytes list \<Rightarrow> bytes list \<Rightarrow> tsid set" where
  "matchingTSIDs P pfx values rows =
     \<Union> (rowTSIDs P pfx ` {item \<in> set rows. HasPrefix item pfx \<and> rowValue P pfx item \<in> set values})"

text \<open>The key of the group at an address, and a group after \<open>n\<close> reversals in lockstep.\<close>

definition keyAt :: "store \<Rightarrow> addr \<Rightarrow> bytes" where
  "keyAt st p = (case st p of None \<Rightarrow> [] | Some t \<Rightarrow> key t)"

definition reversedTimes :: "nat \<Rightarrow> TagSetInfo \<Rightarrow> TagSetInfo" where
  "reversedTimes n t = (if even n then t else reverseInLockstep t)"

text \<open>The slice as \<open>Reverse\<close> leaves it, and the group it leaves at an address.\<close>

definition sliceAfter :: "error + store \<times> addr list \<Rightarrow> addr list" where
  "sliceAfter r = (case r of Inl e \<Rightarrow> [] | Inr (st, gs) \<Rightarrow> gs)"

definition groupAfter :: "error + store \<times> addr list \<Rightarrow> addr \<Rightarrow> TagSetInfo option" where
  "groupAfter r p = (case r of Inl e \<Rightarrow> None | Inr (st, gs) \<Rightarrow> st p)"

section \<open>The time range\<close>

lemma searchTSIDsByBinaryExpr_tr:
  "searchTSIDsByBinaryExpr P is nm op l r tr = searchTSIDsByBinaryExpr P is nm op l r tr'"
  unfolding searchTSIDsByBinaryExpr_def searchTSIDsByTimeRange_def
    searchTSIDsByTagFilterAndDateRange_def
  by (rule refl)

lemma searchTSIDsInternal_tr:
  "searchTSIDsInternal P is nm e tr = searchTSIDsInternal P is nm e tr'"
proof (induction e)
  case (BinaryExpr op l r)
  then show ?case
    using searchTSIDsByBinaryExpr_tr [of P "is" nm op l r tr tr']
    by (simp split: sum.split option.split)
qed (simp_all add: searchTSIDsByTimeRange_def)

text \<open>
  Claim C10. The time range does not influence the resolution of TSIDs:
  \<open>searchTSIDsByTimeRange\<close> returns what \<open>getTSIDsByMeasurementName\<close> returns whatever
  the range is, and \<open>searchTSIDs\<close> returns the same result (the same sorted list, or the
  same error) for any two time ranges.
\<close>

theorem searchTSIDs_ignores_time_range:
  "searchTSIDsByTimeRange P is nm tr = getTSIDsByMeasurementName P is nm
   \<and> searchTSIDs P is nm e tr1 = searchTSIDs P is nm e tr2"
  unfolding searchTSIDs_def searchTSIDsByTimeRange_def
    searchTSIDsInternal_tr [of P "is" nm e "clampMin tr1" "clampMin tr2"]
  by simp

section \<open>Comparisons with a nested binary expression\<close>

lemma searchTSIDsByBinaryExpr_nested:
  "isBinaryExpr lhs \<or> isBinaryExpr rhs \<Longrightarrow>
     searchTSIDsByBinaryExpr P is nm op lhs rhs tr = Inr None"
  by (auto simp: searchTSIDsByBinaryExpr_def)

text \<open>
  Claim C3. For a comparison whose left-hand side is a nested binary expression, here
  \<open>(a + b) = 3\<close> on the measurement \<open>cpu\<close> of the demonstration index,
  \<open>searchTSIDsByBinaryExpr\<close> returns a nil set and no error, although the unfiltered set
  of the measurement is \<open>{1, 2, 3, 4, 5}\<close>. \<open>searchTSIDs\<close> then returns no TSID at all
  for the comparison, and only the series of \<open>host = 'a'\<close> for
  \<open>host = 'a' OR (a + b) = 3\<close>. The iterator-valued sibling \<open>seriesByBinaryExpr\<close>
  returns the unfiltered set with the expression attached.
\<close>

theorem searchTSIDsByBinaryExpr_nested_returns_nil:
  "searchTSIDsByBinaryExpr demoPkg demoIndex cpu EQ
      (BinaryExpr ADD (VarRef [97] Float) (VarRef [98] Float)) (OtherExpr 3) anyTime = Inr None
   \<and> searchTSIDsByTimeRange demoPkg demoIndex cpu anyTime = Inr {1, 2, 3, 4, 5}
   \<and> searchTSIDs demoPkg demoIndex cpu sumEq3 anyTime = Inr []
   \<and> searchTSIDs demoPkg demoIndex cpu (BinaryExpr OR hostEqA sumEq3) anyTime = Inr [1, 2, 3]
   \<and> seriesByBinaryExpr demoPkg demoIndex cpu EQ
        (BinaryExpr ADD (VarRef [97] Float) (VarRef [98] Float)) (OtherExpr 3) anyTime None False
       = (Inr (SeriesIDExprIterator (SeriesIDSetIterator {1, 2, 3, 4, 5}) sumEq3),
          Some {1, 2, 3, 4, 5})"
  by code_simp

section \<open>Negated filters\<close>

lemma wrap_Panic: "wrap w e = Panic p \<Longrightarrow> (\<And>e'. w e' \<noteq> Panic p) \<Longrightarrow> e = Panic p"
  by (cases e) (auto simp: wrap_def)

lemma updateTSIDsByOrSuffix_loop_no_panic:
  "updateTSIDsByOrSuffix_loop P err pfx cur tsids \<noteq> Inl (Panic p)"
  by (induction cur arbitrary: tsids) (auto split: option.splits sum.splits)

lemma updateTSIDsByOrSuffixes_loop_no_panic:
  "updateTSIDsByOrSuffixes_loop P is pfx sfx tsids \<noteq> Inl (Panic p)"
  by (induction sfx arbitrary: tsids)
     (auto simp: updateTSIDsByOrSuffix_def updateTSIDsByOrSuffix_loop_no_panic split: sum.splits)

lemma updateTSIDsForPrefix_loop_no_panic:
  "updateTSIDsForPrefix_loop P err pfx n cur tsids \<noteq> Inl (Panic p)"
  by (induction cur arbitrary: tsids) (auto split: option.splits sum.splits)

lemma getTSIDsForTagFilterSlow_row_no_panic:
  "getTSIDsForTagFilterSlow_row P tf flt pm ps item \<noteq> Fail (Panic p)"
  by (auto simp: getTSIDsForTagFilterSlow_row_def Let_def split: sum.splits option.splits)

lemma getTSIDsForTagFilterSlow_loop_no_panic:
  "getTSIDsForTagFilterSlow_loop P err tf flt pm ps cur tsids \<noteq> Inl (Panic p)"
proof (induction P err tf flt pm ps cur tsids rule: getTSIDsForTagFilterSlow_loop.induct)
  case (1 P err tf flt pm ps tsids)
  then show ?case by (simp split: option.splits)
next
  case (2 P err tf flt pm ps item rest tsids)
  then show ?case
    using getTSIDsForTagFilterSlow_row_no_panic [of P tf flt pm ps item p]
    by (cases "getTSIDsForTagFilterSlow_row P tf flt pm ps item") auto
qed

lemma searchTSIDsByTagFilter_no_BugIsNegative:
  "\<not> isNegative tf \<Longrightarrow> searchTSIDsByTagFilter P is tf \<noteq> Inl (Panic BugIsNegative)"
  by (auto simp: searchTSIDsByTagFilter_def updateTSIDsByOrSuffixesOfTagFilter_def
        getTSIDsForTagFilterSlow_def updateTSIDsByOrSuffixes_loop_no_panic
        getTSIDsForTagFilterSlow_loop_no_panic
      split: sum.splits dest!: wrap_Panic)

lemma getTSIDsByMeasurementName_no_BugIsNegative:
  "getTSIDsByMeasurementName P is nm \<noteq> Inl (Panic BugIsNegative)"
  by (auto simp: getTSIDsByMeasurementName_def Let_def updateTSIDsForPrefix_def
        updateTSIDsForPrefix_loop_no_panic)

text \<open>
  Claim C1. Negation law: for a negated filter, \<open>getTSIDsByTagFilter\<close> returns the set of
  all TSIDs of the measurement (\<open>getTSIDsByMeasurementName\<close>) minus the set returned for
  the same filter with \<open>isNegative\<close> false, and fails with the error of whichever of the
  two fails first. The scan routine \<open>searchTSIDsByTagFilter\<close> is only entered with
  \<open>isNegative\<close> false: its guard \<open>BUG: isNegative must be false\<close> never fires under
  \<open>getTSIDsByTagFilter\<close>.
\<close>

theorem getTSIDsByTagFilter_negation:
  "(isNegative tf \<longrightarrow>
      getTSIDsByTagFilter P is tf =
        (case getTSIDsByMeasurementName P is (name tf) of
           Inl e \<Rightarrow> Inl e
         | Inr allTSIDs \<Rightarrow>
             (case getTSIDsByTagFilter P is (tf\<lparr>isNegative := False\<rparr>) of
                Inl e \<Rightarrow> Inl e
              | Inr positive \<Rightarrow> Inr (allTSIDs - positive))))
   \<and> getTSIDsByTagFilter P is tf \<noteq> Inl (Panic BugIsNegative)"
proof -
  have a: "searchTSIDsByTagFilter P is (tf\<lparr>isNegative := False\<rparr>) \<noteq> Inl (Panic BugIsNegative)"
    by (rule searchTSIDsByTagFilter_no_BugIsNegative) simp
  have b: "\<not> isNegative tf \<Longrightarrow> searchTSIDsByTagFilter P is tf \<noteq> Inl (Panic BugIsNegative)"
    by (rule searchTSIDsByTagFilter_no_BugIsNegative)
  show ?thesis
    using a b getTSIDsByMeasurementName_no_BugIsNegative [of P "is" "name tf"]
    by (auto simp: getTSIDsByTagFilter_def split: sum.splits)
qed

theorem getTSIDsByTagFilter_negation_witness:
  "isNegative notHostA
   \<and> getTSIDsByMeasurementName demoPkg demoIndex (name notHostA) = Inr {1, 2, 3, 4, 5}
   \<and> getTSIDsByTagFilter demoPkg demoIndex (notHostA\<lparr>isNegative := False\<rparr>) = Inr {1, 2, 3}
   \<and> getTSIDsByTagFilter demoPkg demoIndex notHostA = Inr {4, 5}"
proof -
  have h: "isNegative notHostA" by code_simp
  have a: "getTSIDsByMeasurementName demoPkg demoIndex (name notHostA) = Inr {1, 2, 3, 4, 5}"
    by code_simp
  have b: "getTSIDsByTagFilter demoPkg demoIndex (notHostA\<lparr>isNegative := False\<rparr>) = Inr {1, 2, 3}"
    by code_simp
  have c: "{1, 2, 3, 4, 5} - {1, 2, 3} = {4, 5 :: tsid}" by code_simp
  from getTSIDsByTagFilter_negation [of notHostA demoPkg demoIndex] h a b c
  show ?thesis by simp
qed

section \<open>Keys under a prefix\<close>

lemma HasPrefix_Nil [simp]: "HasPrefix x []"
  by (simp add: HasPrefix_def)

lemma HasPrefix_Nil_left [simp]: "HasPrefix [] p \<longleftrightarrow> p = []"
  by (auto simp: HasPrefix_def)

lemma HasPrefix_Cons [simp]: "HasPrefix (a # x) (b # p) \<longleftrightarrow> a = b \<and> HasPrefix x p"
  by (auto simp: HasPrefix_def)

lemma HasPrefix_append: "HasPrefix x p \<longleftrightarrow> (\<exists>t. x = p @ t)"
  by (metis HasPrefix_def append_eq_conv_conj)

lemma HasPrefix_le: "HasPrefix x p \<Longrightarrow> p \<le> x"
proof (induction p arbitrary: x)
  case Nil
  then show ?case by simp
next
  case (Cons b p)
  then show ?case by (cases x) auto
qed

lemma less_not_HasPrefix: "x < p \<Longrightarrow> \<not> HasPrefix x p"
  using HasPrefix_le [of x p] by auto

lemma past_prefix:
  "p \<le> x \<Longrightarrow> \<not> HasPrefix x p \<Longrightarrow> x \<le> y \<Longrightarrow> \<not> HasPrefix (y :: bytes) p"
proof (induction p arbitrary: x y)
  case Nil
  then show ?case by simp
next
  case (Cons b p)
  show ?case
  proof (cases x)
    case Nil
    with Cons.prems show ?thesis by simp
  next
    case xc: (Cons a x')
    show ?thesis
    proof (cases y)
      case Nil
      then show ?thesis by simp
    next
      case yc: (Cons c y')
      from Cons.prems xc yc consider "b < a" | "b = a" "p \<le> x'" "\<not> HasPrefix x' p" by auto
      then show ?thesis
      proof cases
        case 1
        with Cons.prems xc yc show ?thesis by auto
      next
        case 2
        from Cons.prems(3) xc yc consider "a < c" | "a = c" "x' \<le> y'" by auto
        then show ?thesis
        proof cases
          case 1
          with 2 yc show ?thesis by auto
        next
          case 2
          with \<open>p \<le> x'\<close> \<open>\<not> HasPrefix x' p\<close> Cons.IH [of x' y'] yc \<open>b = a\<close>
          show ?thesis by auto
        qed
      qed
    qed
  qed
qed

lemma takeWhile_HasPrefix_filter:
  "sorted ys \<Longrightarrow> \<forall>y \<in> set ys. p \<le> y \<Longrightarrow>
     takeWhile (\<lambda>x. HasPrefix x p) ys = filter (\<lambda>x. HasPrefix x p) (ys :: bytes list)"
proof (induction ys)
  case Nil
  then show ?case by simp
next
  case (Cons y ys)
  show ?case
  proof (cases "HasPrefix y p")
    case True
    with Cons show ?thesis by simp
  next
    case False
    have "\<not> HasPrefix z p" if "z \<in> set ys" for z
      using past_prefix [of p y z] Cons.prems False that by auto
    then have "filter (\<lambda>x. HasPrefix x p) ys = []"
      by (simp add: filter_empty_conv)
    with False show ?thesis by simp
  qed
qed

lemma Seek_ge: "sorted xs \<Longrightarrow> x \<in> set (Seek xs k) \<Longrightarrow> k \<le> (x :: bytes)"
proof (induction xs)
  case Nil
  then show ?case by (simp add: Seek_def)
next
  case (Cons a xs)
  then show ?case
    by (auto simp: Seek_def split: if_splits)
qed

lemma sorted_Seek: "sorted xs \<Longrightarrow> sorted (Seek xs k)"
  by (simp add: Seek_def sorted_dropWhile)

lemma set_Seek: "x \<in> set (Seek xs k) \<Longrightarrow> x \<in> set xs"
  by (auto simp: Seek_def dest: set_dropWhileD)

lemma in_Seek: "x \<in> set xs \<Longrightarrow> \<not> x < k \<Longrightarrow> x \<in> set (Seek xs k)"
  by (induction xs) (auto simp: Seek_def)

lemma Seek_prefix_rows:
  "sorted xs \<Longrightarrow>
     takeWhile (\<lambda>x. HasPrefix x p) (Seek xs p) = filter (\<lambda>x. HasPrefix x p) xs"
proof (induction xs)
  case Nil
  then show ?case by (simp add: Seek_def)
next
  case (Cons x xs)
  show ?case
  proof (cases "x < p")
    case True
    with Cons less_not_HasPrefix [of x p] show ?thesis by (simp add: Seek_def)
  next
    case False
    then have s: "Seek (x # xs) p = x # xs" by (simp add: Seek_def)
    have "\<forall>y \<in> set (x # xs). p \<le> y"
      using Cons.prems False by auto
    with takeWhile_HasPrefix_filter [of "x # xs" p] Cons.prems s show ?thesis by simp
  qed
qed

text \<open>The seek of a skip-ahead stays ahead of the cursor.\<close>

lemma Seek_forward:
  "sorted (pre @ item # rest) \<Longrightarrow> item < k \<Longrightarrow> Seek (pre @ item # rest) k = Seek rest k"
proof -
  assume s: "sorted (pre @ item # rest)" and k: "item < k"
  have "\<forall>x \<in> set pre. x < k"
    using s k by (auto simp: sorted_append)
  then show ?thesis using k by (simp add: Seek_def)
qed

lemma IndexByte_neg: "IndexByte bs c < 0 \<longleftrightarrow> c \<notin> set bs"
  by (induction bs) (auto simp: Let_def)

lemma IndexByte_range: "IndexByte bs c < int (length bs)"
  by (induction bs) (auto simp: Let_def)

lemma IndexByte_ge: "- 1 \<le> IndexByte bs c"
  by (induction bs) (auto simp: Let_def)

lemma IndexByte_split:
  "0 \<le> IndexByte bs c \<Longrightarrow>
     bs = take (nat (IndexByte bs c)) bs @ c # drop (nat (IndexByte bs c) + 1) bs
     \<and> c \<notin> set (take (nat (IndexByte bs c)) bs)"
proof (induction bs)
  case Nil
  then show ?case by simp
next
  case (Cons b bs)
  show ?case
  proof (cases "b = c")
    case True
    then show ?thesis by simp
  next
    case False
    with Cons.prems have n: "0 \<le> IndexByte bs c"
      by (auto simp: Let_def split: if_splits)
    with False have e: "IndexByte (b # bs) c = IndexByte bs c + 1"
      by (simp add: Let_def)
    have "nat (IndexByte bs c + 1) = Suc (nat (IndexByte bs c))"
      using n by simp
    with Cons.IH [OF n] e False show ?thesis by auto
  qed
qed

lemma IndexByte_append:
  "c \<notin> set v \<Longrightarrow> IndexByte (v @ c # t) c = int (length v)"
  by (induction v) (auto simp: Let_def)

text \<open>The successor key of a skip-ahead.\<close>

lemma below_successor:
  "HasPrefix x (q @ [c]) \<Longrightarrow> c < c + 1 \<Longrightarrow> x < q @ [c + (1 :: byte)]"
proof (induction q arbitrary: x)
  case Nil
  then show ?case by (cases x) auto
next
  case (Cons a q)
  then show ?case by (cases x) auto
qed

lemma between_successor:
  "q @ [c] \<le> x \<Longrightarrow> x < q @ [c + (1 :: byte)] \<Longrightarrow> HasPrefix x (q @ [c])"
proof (induction q arbitrary: x)
  case Nil
  show ?case
  proof (cases x)
    case Nil
    with Nil.prems show ?thesis by simp
  next
    case (Cons a x')
    with Nil.prems have "c \<le> a" "a < c + 1" by auto
    moreover have "c + 1 \<le> a" if "c < a" using that by (rule inc_le)
    ultimately have "a = c" by (cases "c < a") auto
    with Cons show ?thesis by simp
  qed
next
  case (Cons a q)
  then show ?case by (cases x) auto
qed

lemma sep_successor: "(c :: byte) < 255 \<Longrightarrow> c < c + 1"
proof -
  assume a: "c < 255"
  have "(255 :: byte) = - 1" by simp
  with a have "c \<noteq> - 1" by auto
  then have "\<not> c + 1 \<le> c" by (simp add: inc_less_eq_self_iff_eq)
  then show ?thesis by simp
qed

text \<open>On a sorted table the seek of a skip-ahead drops exactly the rows ahead that start
  with the bytes it copied.\<close>

lemma Seek_successor_rows:
  assumes so: "sorted (item # rest)" and c: "(c :: byte) < 255" and hp: "HasPrefix item (q @ [c])"
  shows "set (Seek rest (q @ [c + 1])) = {row \<in> set rest. \<not> HasPrefix row (q @ [c])}"
proof -
  have a: "\<not> HasPrefix row (q @ [c])" if "row \<in> set (Seek rest (q @ [c + 1]))" for row
  proof
    assume "HasPrefix row (q @ [c])"
    then have "row < q @ [c + 1]"
      using sep_successor [OF c] by (rule below_successor)
    moreover have "q @ [c + 1] \<le> row"
      using so that Seek_ge [of rest row "q @ [c + 1]"] by simp
    ultimately show False by simp
  qed
  have b: "row \<in> set (Seek rest (q @ [c + 1]))"
    if "row \<in> set rest" "\<not> HasPrefix row (q @ [c])" for row
  proof (rule in_Seek [OF that(1)])
    show "\<not> row < q @ [c + 1]"
    proof
      assume lt: "row < q @ [c + 1]"
      have "item \<le> row" using so that(1) by simp
      moreover have "q @ [c] \<le> item" using hp by (rule HasPrefix_le)
      ultimately have "q @ [c] \<le> row" by simp
      from between_successor [OF this lt] that(2) show False by simp
    qed
  qed
  from a b set_Seek show ?thesis by blast
qed

section \<open>One row of the slow path\<close>

lemma row_decomp:
  assumes "HasPrefix item pfx" and "0 \<le> IndexByte (drop (length pfx) item) c"
  shows "\<exists>v t. item = pfx @ v @ c # t \<and> c \<notin> set v"
proof -
  let ?tail = "drop (length pfx) item"
  let ?n = "nat (IndexByte ?tail c)"
  from assms(1) have "pfx @ ?tail = item"
    unfolding HasPrefix_def by (metis append_take_drop_id)
  moreover from IndexByte_split [OF assms(2)]
  have "?tail = take ?n ?tail @ c # drop (?n + 1) ?tail" and "c \<notin> set (take ?n ?tail)"
    by simp_all
  ultimately have "item = pfx @ take ?n ?tail @ c # drop (?n + 1) ?tail \<and> c \<notin> set (take ?n ?tail)"
    by simp
  then show ?thesis by blast
qed

lemma take_row_key: "take (length (pfx @ v @ c # t) - length t) (pfx @ v @ c # t) = pfx @ v @ [c]"
  by simp

lemma slow_row_explicit:
  assumes "tagSeparatorChar P \<notin> set v"
    and c_def: "c = tagSeparatorChar P"
    and item_def: "item = prefix tf @ v @ tagSeparatorChar P # t"
  shows "getTSIDsForTagFilterSlow_row P tf flt pm ps item =
     (case InitOnlyTail P item t of
        Inl e \<Rightarrow> Fail (External e)
      | Inr ids \<Rightarrow>
          if pm \<and> v @ [c] = ps then Continue pm ps (filterTSIDs flt ids)
          else if (case flt of None \<Rightarrow> False | Some s \<Rightarrow> \<not> HasCommonTSIDs ids s)
          then Continue pm ps []
          else (case matchSuffix P tf (v @ [c]) of
                  Inl e \<Rightarrow> Fail (MatchSuffixError (v @ [c]) e)
                | Inr ok \<Rightarrow>
                    if \<not> ok then
                      (if length ids < MaxTSIDsPerRow P div 2 then Continue False ps []
                       else if c \<ge> 255 then Fail (DataCorruption (prefix tf @ v @ [c]) c)
                       else Reseek (prefix tf @ v @ [c + 1]))
                    else Continue True (v @ [c]) (filterTSIDs flt ids)))"
proof -
  have hp: "HasPrefix item (prefix tf)"
    by (simp add: item_def HasPrefix_append)
  have tail: "drop (length (prefix tf)) item = v @ c # t"
    by (simp add: item_def c_def)
  have n: "IndexByte (v @ c # t) c = int (length v)"
    using assms(1) by (simp add: IndexByte_append c_def)
  have kb: "take (length item - length t) item = prefix tf @ v @ [c]"
    unfolding item_def c_def by (rule take_row_key)
  have bl: "butlast (prefix tf @ v @ [c]) = prefix tf @ v"
    by (simp add: butlast_append)
  show ?thesis
  proof (cases "InitOnlyTail P item t")
    case (Inl e)
    then show ?thesis
      unfolding getTSIDsForTagFilterSlow_row_def Let_def tail c_def [symmetric]
      using hp by (simp add: n)
  next
    case (Inr ids)
    show ?thesis
    proof (cases "matchSuffix P tf (v @ [c])")
      case (Inl e)
      with Inr show ?thesis
        unfolding getTSIDsForTagFilterSlow_row_def Let_def tail c_def [symmetric]
        using hp by (simp add: n)
    next
      case ok: (Inr ok)
      with Inr show ?thesis
        unfolding getTSIDsForTagFilterSlow_row_def Let_def tail c_def [symmetric]
        using hp by (simp add: n kb bl)
    qed
  qed
qed

lemma slow_row_Done:
  "getTSIDsForTagFilterSlow_row P tf flt pm ps item = Done \<longleftrightarrow> \<not> HasPrefix item (prefix tf)"
  by (auto simp: getTSIDsForTagFilterSlow_row_def Let_def split: sum.splits option.splits)

lemma slow_row_no_separator:
  "HasPrefix item (prefix tf) \<Longrightarrow> tagSeparatorChar P \<notin> set (drop (length (prefix tf)) item) \<Longrightarrow>
     getTSIDsForTagFilterSlow_row P tf flt pm ps item
       = Fail (InvalidTagToTSIDsLine item (tagSeparatorChar P))"
  by (simp add: getTSIDsForTagFilterSlow_row_def Let_def IndexByte_neg)

lemma slow_row_shape:
  assumes "getTSIDsForTagFilterSlow_row P tf flt pm ps item = a"
    and "\<forall>bs. a \<noteq> Fail (InvalidTagToTSIDsLine bs (tagSeparatorChar P))" and "a \<noteq> Done"
  shows "\<exists>v t. item = prefix tf @ v @ tagSeparatorChar P # t \<and> tagSeparatorChar P \<notin> set v"
proof -
  from assms have hp: "HasPrefix item (prefix tf)"
    using slow_row_Done [of P tf flt pm ps item] by auto
  have "0 \<le> IndexByte (drop (length (prefix tf)) item) (tagSeparatorChar P)"
  proof (rule ccontr)
    assume "\<not> ?thesis"
    then have "tagSeparatorChar P \<notin> set (drop (length (prefix tf)) item)"
      by (simp add: IndexByte_neg [symmetric])
    from slow_row_no_separator [OF hp this] assms show False by auto
  qed
  from row_decomp [OF hp this] show ?thesis .
qed

lemma slow_row_Reseek:
  assumes "getTSIDsForTagFilterSlow_row P tf flt pm ps item = Reseek k"
  shows "\<exists>v t. item = prefix tf @ v @ tagSeparatorChar P # t \<and> tagSeparatorChar P \<notin> set v
           \<and> k = prefix tf @ v @ [tagSeparatorChar P + 1] \<and> tagSeparatorChar P < 255
           \<and> matchSuffix P tf (v @ [tagSeparatorChar P]) = Inr False"
proof -
  from slow_row_shape [OF assms] obtain v t
    where i: "item = prefix tf @ v @ tagSeparatorChar P # t" and v: "tagSeparatorChar P \<notin> set v"
    by auto
  from assms slow_row_explicit [OF v refl i, of flt pm ps]
  have "k = prefix tf @ v @ [tagSeparatorChar P + 1] \<and> tagSeparatorChar P < 255
           \<and> matchSuffix P tf (v @ [tagSeparatorChar P]) = Inr False"
    by (auto split: sum.splits if_splits)
  with i v show ?thesis by blast
qed


text \<open>The key of a skip-ahead lies beyond the current item, so on a sorted table seeking it
  in the whole table is seeking it in the items ahead of the cursor.\<close>

lemma Reseek_forward:
  assumes "getTSIDsForTagFilterSlow_row P tf flt pm ps item = Reseek k"
    and "sorted (pre @ item # rest)"
  shows "item < k" and "Seek (pre @ item # rest) k = Seek rest k"
proof -
  from slow_row_Reseek [OF assms(1)] obtain v t
    where i: "item = prefix tf @ v @ tagSeparatorChar P # t"
      and k: "k = prefix tf @ v @ [tagSeparatorChar P + 1]" and c: "tagSeparatorChar P < 255"
    by auto
  have "HasPrefix item ((prefix tf @ v) @ [tagSeparatorChar P])"
    by (simp add: i HasPrefix_append)
  from below_successor [OF this sep_successor [OF c]] k show lt: "item < k" by simp
  from Seek_forward [OF assms(2) lt] show "Seek (pre @ item # rest) k = Seek rest k" .
qed

section \<open>Corrupt rows\<close>

lemma slow_loop_corrupt:
  "sorted cur \<Longrightarrow> \<forall>x \<in> set cur. prefix tf \<le> x \<Longrightarrow> bad \<in> set cur \<Longrightarrow>
   HasPrefix bad (prefix tf) \<Longrightarrow> tagSeparatorChar P \<notin> set (drop (length (prefix tf)) bad) \<Longrightarrow>
     \<exists>e. getTSIDsForTagFilterSlow_loop P err tf flt pm ps cur tsids = Inl e"
proof (induction P err tf flt pm ps cur tsids rule: getTSIDsForTagFilterSlow_loop.induct)
  case (1 P err tf flt pm ps tsids)
  then show ?case by simp
next
  case (2 P err tf flt pm ps item rest tsids)
  let ?c = "tagSeparatorChar P"
  show ?case
  proof (cases "bad = item")
    case True
    with slow_row_no_separator [OF "2.prems"(4,5), of flt pm ps] show ?thesis by simp
  next
    case False
    with "2.prems" have bad: "bad \<in> set rest" and le: "item \<le> bad" by auto
    from "2.prems" have srest: "sorted rest" and ge: "\<forall>x \<in> set rest. prefix tf \<le> x" by auto
    show ?thesis
    proof (cases "getTSIDsForTagFilterSlow_row P tf flt pm ps item")
      case (Fail e)
      then show ?thesis by simp
    next
      case Done
      then have "\<not> HasPrefix item (prefix tf)" by (simp add: slow_row_Done)
      moreover from "2.prems" have "prefix tf \<le> item" by simp
      ultimately have "\<not> HasPrefix bad (prefix tf)" using le past_prefix by blast
      with "2.prems" show ?thesis by simp
    next
      case (Continue pm' ps' ids)
      from "2.IH"(1) [OF Continue srest ge bad "2.prems"(4,5)] Continue show ?thesis by simp
    next
      case (Reseek k)
      from slow_row_Reseek [OF Reseek] obtain v t
        where i: "item = prefix tf @ v @ ?c # t" and k: "k = prefix tf @ v @ [?c + 1]"
          and c: "?c < 255"
        by auto
      have "\<not> bad < k"
      proof
        assume "bad < k"
        moreover have "(prefix tf @ v) @ [?c] \<le> bad"
          using le HasPrefix_le [of item "(prefix tf @ v) @ [?c]"] i
          by (simp add: HasPrefix_append)
        ultimately have "HasPrefix bad ((prefix tf @ v) @ [?c])"
          using between_successor [of "prefix tf @ v" ?c bad] k by simp
        then obtain t' where "bad = prefix tf @ v @ ?c # t'"
          by (auto simp: HasPrefix_append)
        with "2.prems"(5) show False by simp
      qed
      with bad have b: "bad \<in> set (Seek rest k)" by (simp add: in_Seek)
      have s: "sorted (Seek rest k)" using srest by (rule sorted_Seek)
      have g: "\<forall>x \<in> set (Seek rest k). prefix tf \<le> x"
        using ge set_Seek by blast
      from "2.IH"(2) [OF Reseek s g b "2.prems"(4,5)] Reseek show ?thesis by simp
    qed
  qed
qed

lemma skipTagSeps_None: "skipTagSeps c tail n = None \<longleftrightarrow> count_list tail c < n"
proof (induction n arbitrary: tail)
  case 0
  then show ?case by simp
next
  case (Suc n)
  show ?case
  proof (cases "c \<in> set tail")
    case False
    then show ?thesis by (simp add: IndexByte_neg Let_def)
  next
    case True
    then have n0: "0 \<le> IndexByte tail c"
      using IndexByte_neg [of tail c] by simp
    let ?m = "nat (IndexByte tail c)"
    from IndexByte_split [OF n0]
    have t: "tail = take ?m tail @ c # drop (?m + 1) tail" and v: "c \<notin> set (take ?m tail)"
      by simp_all
    have "count_list tail c = count_list (take ?m tail @ c # drop (?m + 1) tail) c"
      using t by simp
    also have "\<dots> = Suc (count_list (drop (?m + 1) tail) c)"
      using v by simp
    finally have "count_list tail c = Suc (count_list (drop (?m + 1) tail) c)" .
    with Suc.IH [of "drop (?m + 1) tail"] n0 show ?thesis by (simp add: Let_def)
  qed
qed

lemma prefix_loop_corrupt:
  "sorted cur \<Longrightarrow> \<forall>x \<in> set cur. pfx \<le> x \<Longrightarrow> bad \<in> set cur \<Longrightarrow> HasPrefix bad pfx \<Longrightarrow>
   skipTagSeps (tagSeparatorChar P) (drop (length pfx) bad) n = None \<Longrightarrow>
     \<exists>e. updateTSIDsForPrefix_loop P err pfx n cur tsids = Inl e"
proof (induction cur arbitrary: tsids)
  case Nil
  then show ?case by simp
next
  case (Cons item rest)
  show ?case
  proof (cases "bad = item")
    case True
    with Cons.prems show ?thesis by simp
  next
    case False
    with Cons.prems have bad: "bad \<in> set rest" and le: "item \<le> bad" by auto
    have hp: "HasPrefix item pfx"
    proof (rule ccontr)
      assume "\<not> HasPrefix item pfx"
      moreover from Cons.prems have "pfx \<le> item" by simp
      ultimately have "\<not> HasPrefix bad pfx" using le past_prefix by blast
      with Cons.prems show False by simp
    qed
    from Cons.prems have "sorted rest" "\<forall>x \<in> set rest. pfx \<le> x" by auto
    from Cons.IH [OF this bad Cons.prems(4,5)] hp show ?thesis
      by (auto split: option.splits sum.splits)
  qed
qed

text \<open>
  Claim C5. A row under the search prefix whose tail lacks the separator (for the scan with
  \<open>n\<close> separators of \<open>updateTSIDsForPrefix\<close>: holds fewer than \<open>n\<close> of them) aborts the
  scan. When the cursor reaches the row, the scan returns the corruption error that
  carries the row; and on a sorted table that holds such a row under the prefix, neither
  scan ever returns a set: the row is not skipped, and no partial result is returned.
\<close>

theorem corrupt_row_aborts_scan:
  assumes "HasPrefix bad pfx"
  shows "(tagSeparatorChar P \<notin> set (drop (length pfx) bad) \<and> prefix tf = pfx \<longrightarrow>
            getTSIDsForTagFilterSlow_loop P err tf flt pm ps (bad # rest) tsids
              = Inl (InvalidTagToTSIDsLine bad (tagSeparatorChar P))
            \<and> (sorted (items is) \<and> bad \<in> set (items is) \<longrightarrow>
                 (\<exists>e. getTSIDsForTagFilterSlow P is tf flt tsids = Inl e)))
       \<and> (count_list (drop (length pfx) bad) (tagSeparatorChar P) < n \<longrightarrow>
            updateTSIDsForPrefix_loop P err pfx n (bad # rest) tsids
              = Inl (InvalidTagToTSIDsLine bad (tagSeparatorChar P))
            \<and> (sorted (items is) \<and> bad \<in> set (items is) \<longrightarrow>
                 (\<exists>e. updateTSIDsForPrefix P is pfx tsids n = Inl e)))"
proof -
  have ge: "\<not> bad < pfx"
    using HasPrefix_le [OF assms] by simp
  have inSeek: "bad \<in> set (Seek (items is) pfx)" if "bad \<in> set (items is)"
    using that ge by (rule in_Seek)
  have allge: "\<forall>x \<in> set (Seek (items is) pfx). pfx \<le> x" if "sorted (items is)"
    using that Seek_ge by blast
  have slow1: "getTSIDsForTagFilterSlow_loop P err tf flt pm ps (bad # rest) tsids
              = Inl (InvalidTagToTSIDsLine bad (tagSeparatorChar P))"
    if "tagSeparatorChar P \<notin> set (drop (length pfx) bad)" "prefix tf = pfx"
    using slow_row_no_separator [of bad tf P flt pm ps] assms that by simp
  have slow2: "\<exists>e. getTSIDsForTagFilterSlow P is tf flt tsids = Inl e"
    if "tagSeparatorChar P \<notin> set (drop (length pfx) bad)" "prefix tf = pfx"
      "sorted (items is)" "bad \<in> set (items is)"
  proof (cases "orSuffixes tf = []")
    case True
    have "\<exists>e. getTSIDsForTagFilterSlow_loop P (tsError is) tf flt False []
            (Seek (items is) (prefix tf)) tsids = Inl e"
      using sorted_Seek [OF that(3)] allge [OF that(3)] inSeek [OF that(4)] assms that(1,2)
      by (intro slow_loop_corrupt [where bad = bad]) simp_all
    with True show ?thesis by (simp add: getTSIDsForTagFilterSlow_def)
  next
    case False
    then show ?thesis by (simp add: getTSIDsForTagFilterSlow_def)
  qed
  have pre1: "updateTSIDsForPrefix_loop P err pfx n (bad # rest) tsids
              = Inl (InvalidTagToTSIDsLine bad (tagSeparatorChar P))"
    if "count_list (drop (length pfx) bad) (tagSeparatorChar P) < n"
    using that assms by (simp add: skipTagSeps_None [symmetric])
  have pre2: "\<exists>e. updateTSIDsForPrefix P is pfx tsids n = Inl e"
    if "count_list (drop (length pfx) bad) (tagSeparatorChar P) < n"
      "sorted (items is)" "bad \<in> set (items is)"
    unfolding updateTSIDsForPrefix_def
    using sorted_Seek [OF that(2)] allge [OF that(2)] inSeek [OF that(3)] assms that(1)
    by (intro prefix_loop_corrupt [where bad = bad]) (simp_all add: skipTagSeps_None)
  from slow1 slow2 pre1 pre2 show ?thesis by blast
qed

theorem corrupt_row_aborts_scan_witness:
  "HasPrefix corruptRow (prefix hostLikeB)
   \<and> tagSeparatorChar demoPkg \<notin> set (drop (length (prefix hostLikeB)) corruptRow)
   \<and> sorted (items corruptIndex) \<and> corruptRow \<in> set (items corruptIndex)
   \<and> (\<exists>e. getTSIDsForTagFilterSlow demoPkg corruptIndex hostLikeB None {} = Inl e)
   \<and> getTSIDsForTagFilterSlow demoPkg corruptIndex hostLikeB None {}
        = Inl (InvalidTagToTSIDsLine corruptRow 1)
   \<and> getTSIDsByMeasurementName demoPkg corruptIndex cpu
        = Inl (InvalidTagToTSIDsLine corruptRow 1)"
proof -
  have h1: "HasPrefix corruptRow (prefix hostLikeB)" by code_simp
  have h2: "tagSeparatorChar demoPkg \<notin> set (drop (length (prefix hostLikeB)) corruptRow)"
    by code_simp
  have h3: "sorted (items corruptIndex)" by code_simp
  have h4: "corruptRow \<in> set (items corruptIndex)" by code_simp
  have e1: "getTSIDsForTagFilterSlow demoPkg corruptIndex hostLikeB None {}
        = Inl (InvalidTagToTSIDsLine corruptRow 1)" by code_simp
  have e2: "getTSIDsByMeasurementName demoPkg corruptIndex cpu
        = Inl (InvalidTagToTSIDsLine corruptRow 1)" by code_simp
  from corrupt_row_aborts_scan [OF h1, of demoPkg hostLikeB, where ?is = corruptIndex and flt = None and tsids = "{}"]
    h2 h3 h4
  have "\<exists>e. getTSIDsForTagFilterSlow demoPkg corruptIndex hostLikeB None {} = Inl e"
    by blast
  with h1 h2 h3 h4 e1 e2 show ?thesis by blast
qed

text \<open>
  Claim C6. When the matcher rejects the suffix of a row in \<open>getTSIDsForTagFilterSlow\<close>:
  with fewer than \<open>MaxTSIDsPerRow / 2\<close> TSIDs in the row the scan goes on with the next
  item; otherwise it takes the bytes of the row up to and including the separator,
  increments the last byte and seeks there, and it returns the data-corruption error
  exactly when these bytes are empty, do not end in the separator, or the separator is
  \<open>0xFF\<close> or more. The bytes always end in the separator, and on a sorted table the seek
  skips exactly the remaining rows that start with them.
\<close>

theorem slow_path_non_match:
  assumes pfx: "HasPrefix item (prefix tf)"
    and sep: "0 \<le> IndexByte (drop (length (prefix tf)) item) (tagSeparatorChar P)"
    and suffix: "suffix = take (nat (IndexByte (drop (length (prefix tf)) item) (tagSeparatorChar P)) + 1)
                            (drop (length (prefix tf)) item)"
    and tail: "tail = drop (nat (IndexByte (drop (length (prefix tf)) item) (tagSeparatorChar P)) + 1)
                        (drop (length (prefix tf)) item)"
    and parse: "InitOnlyTail P item tail = Inr ids"
    and notprev: "\<not> (prevMatch \<and> suffix = prevMatchingSuffix)"
    and common: "case flt of None \<Rightarrow> True | Some s \<Rightarrow> HasCommonTSIDs ids s"
    and nomatch: "matchSuffix P tf suffix = Inr False"
    and kb: "kb = take (length item - length tail) item"
  shows "getTSIDsForTagFilterSlow_loop P err tf flt prevMatch prevMatchingSuffix (item # rest) tsids =
           (if length ids < MaxTSIDsPerRow P div 2
            then getTSIDsForTagFilterSlow_loop P err tf flt False prevMatchingSuffix rest tsids
            else if kb = [] \<or> last kb \<noteq> tagSeparatorChar P \<or> 255 \<le> tagSeparatorChar P
            then Inl (DataCorruption kb (tagSeparatorChar P))
            else getTSIDsForTagFilterSlow_loop P err tf flt False prevMatchingSuffix
                   (Seek rest (butlast kb @ [last kb + 1])) tsids)
         \<and> kb = prefix tf @ suffix \<and> kb \<noteq> [] \<and> last kb = tagSeparatorChar P
         \<and> (sorted (item # rest) \<and> tagSeparatorChar P < 255 \<longrightarrow>
              set (Seek rest (butlast kb @ [last kb + 1])) = {row \<in> set rest. \<not> HasPrefix row kb})"
proof -
  let ?c = "tagSeparatorChar P"
  from row_decomp [OF pfx sep] obtain v t
    where i: "item = prefix tf @ v @ ?c # t" and v: "?c \<notin> set v" by auto
  have dr: "drop (length (prefix tf)) item = v @ ?c # t" by (simp add: i)
  have n: "IndexByte (v @ ?c # t) ?c = int (length v)"
    using v by (simp add: IndexByte_append)
  have s: "suffix = v @ [?c]" unfolding suffix dr n by simp
  have t: "tail = t" unfolding tail dr n by simp
  have k: "kb = prefix tf @ v @ [?c]"
    unfolding kb t i by (rule take_row_key)
  have bl: "butlast kb = prefix tf @ v" by (simp add: k butlast_append)
  have la: "last kb = ?c" by (simp add: k)
  have row: "getTSIDsForTagFilterSlow_row P tf flt prevMatch prevMatchingSuffix item =
      (if length ids < MaxTSIDsPerRow P div 2 then Continue False prevMatchingSuffix []
       else if 255 \<le> ?c then Fail (DataCorruption kb ?c)
       else Reseek (butlast kb @ [last kb + 1]))"
    using slow_row_explicit [OF v refl i, of flt prevMatch prevMatchingSuffix]
      parse [unfolded t] notprev [unfolded s] common nomatch [unfolded s]
    by (auto simp: k butlast_append split: option.splits)
  have skip: "set (Seek rest (butlast kb @ [last kb + 1])) = {row \<in> set rest. \<not> HasPrefix row kb}"
    if so: "sorted (item # rest)" and c: "?c < 255"
  proof -
    have hp: "HasPrefix item ((prefix tf @ v) @ [?c])"
      by (simp add: i HasPrefix_append)
    have k': "(prefix tf @ v) @ [?c + 1] = butlast kb @ [last kb + 1]"
      by (simp add: bl la)
    have kk: "(prefix tf @ v) @ [?c] = kb"
      by (simp add: k)
    from Seek_successor_rows [OF so c hp] show ?thesis
      unfolding k' kk .
  qed
  from row k la s skip show ?thesis by (auto simp: k)
qed

theorem slow_path_non_match_witness:
  "HasPrefix rowA (prefix hostLikeB)
   \<and> InitOnlyTail demoPkg rowA rowA_tail = Inr [1, 2, 3]
   \<and> matchSuffix demoPkg hostLikeB [97, 1] = Inr False
   \<and> \<not> length [1, 2, 3 :: tsid] < MaxTSIDsPerRow demoPkg div 2
   \<and> getTSIDsForTagFilterSlow_loop demoPkg None hostLikeB None False [] [rowA, rowB] {}
       = getTSIDsForTagFilterSlow_loop demoPkg None hostLikeB None False []
           (Seek [rowB] (butlast rowA_key @ [last rowA_key + 1])) {}
   \<and> getTSIDsForTagFilterSlow_loop demoPkg None hostLikeB None False [] [rowA, rowB] {}
       = Inr {4, 5}"
proof -
  have h1: "HasPrefix rowA (prefix hostLikeB)" by code_simp
  have h2: "0 \<le> IndexByte (drop (length (prefix hostLikeB)) rowA) (tagSeparatorChar demoPkg)"
    by code_simp
  have h3: "[97, 1] = take (nat (IndexByte (drop (length (prefix hostLikeB)) rowA)
                (tagSeparatorChar demoPkg)) + 1) (drop (length (prefix hostLikeB)) rowA)"
    by code_simp
  have h4: "rowA_tail = drop (nat (IndexByte (drop (length (prefix hostLikeB)) rowA)
                (tagSeparatorChar demoPkg)) + 1) (drop (length (prefix hostLikeB)) rowA)"
    by code_simp
  have h5: "InitOnlyTail demoPkg rowA rowA_tail = Inr [1, 2, 3]" by code_simp
  have h6: "\<not> (False \<and> [97, 1] = ([] :: bytes))" by simp
  have h7: "case None :: tsid set option of None \<Rightarrow> True | Some s \<Rightarrow> HasCommonTSIDs [1, 2, 3] s"
    by simp
  have h8: "matchSuffix demoPkg hostLikeB [97, 1] = Inr False" by code_simp
  have h9: "rowA_key = take (length rowA - length rowA_tail) rowA" by code_simp
  have c1: "\<not> length [1, 2, 3 :: tsid] < MaxTSIDsPerRow demoPkg div 2" by code_simp
  have c2: "\<not> (rowA_key = [] \<or> last rowA_key \<noteq> tagSeparatorChar demoPkg
               \<or> 255 \<le> tagSeparatorChar demoPkg)" by code_simp
  have e: "getTSIDsForTagFilterSlow_loop demoPkg None hostLikeB None False []
           (Seek [rowB] (butlast rowA_key @ [last rowA_key + 1])) {} = Inr {4, 5}"
    by code_simp
  from slow_path_non_match [OF h1 h2 h3 h4 h5 h6 h7 h8 h9, of None "[rowB]" "{}"] c1 c2
  have "getTSIDsForTagFilterSlow_loop demoPkg None hostLikeB None False [] [rowA, rowB] {}
       = getTSIDsForTagFilterSlow_loop demoPkg None hostLikeB None False []
           (Seek [rowB] (butlast rowA_key @ [last rowA_key + 1])) {}"
    by simp
  with h1 h5 h8 c1 e show ?thesis by simp
qed

section \<open>The single-series fast path\<close>






lemma genSeriesIDIterator_no_sentinel: "genSeriesIDIterator ids n \<noteq> Inl ErrFieldExpr"
  by (auto simp: genSeriesIDIterator_def split: option.splits)
























section \<open>Grouped series in lockstep\<close>

lemma length_swapBetween [simp]: "length (swapBetween xs i j) = length xs"
  by (induction xs i j rule: swapBetween.induct) (subst swapBetween.simps, simp)

lemma swapBetween_nth:
  "0 \<le> i \<Longrightarrow> j < int (length xs) \<Longrightarrow> k < length xs \<Longrightarrow>
     swapBetween xs i j ! k =
       (if i \<le> int k \<and> int k \<le> j then xs ! nat (i + j - int k) else xs ! k)"
proof (induction xs i j arbitrary: k rule: swapBetween.induct)
  case (1 xs i j)
  show ?case
  proof (cases "i < j")
    case False
    then have "swapBetween xs i j = xs" by (subst swapBetween.simps) simp
    moreover have "nat (i + j - int k) = k" if "i \<le> int k" "int k \<le> j"
      using that False by simp
    ultimately show ?thesis by simp
  next
    case True
    let ?ys = "xs[nat i := xs ! nat j, nat j := xs ! nat i]"
    have sw: "swapBetween xs i j = swapBetween ?ys (i + 1) (j - 1)"
      using True by (subst swapBetween.simps) simp
    have ih: "swapBetween ?ys (i + 1) (j - 1) ! k =
       (if i + 1 \<le> int k \<and> int k \<le> j - 1 then ?ys ! nat (i + 1 + (j - 1) - int k) else ?ys ! k)"
      using "1.IH" [OF True, of k] "1.prems" by simp
    have ni: "nat i < length xs" and nj: "nat j < length xs" and ij: "nat i \<noteq> nat j"
      using True "1.prems" by auto
    consider "int k = i" | "int k = j" | "i < int k" "int k < j" | "int k < i" | "j < int k"
      by linarith
    then show ?thesis
    proof cases
      case 1
      then have "k = nat i" by simp
      with 1 True ni nj ij show ?thesis unfolding sw ih by simp
    next
      case 2
      then have "k = nat j" by simp
      with 2 True ni nj ij show ?thesis unfolding sw ih by simp
    next
      case 3
      then have "nat (i + j - int k) \<noteq> nat i" "nat (i + j - int k) \<noteq> nat j"
        using "1.prems" by auto
      with 3 show ?thesis unfolding sw ih by simp
    next
      case 4
      then have "k \<noteq> nat i" "k \<noteq> nat j" using True "1.prems" by auto
      with 4 show ?thesis unfolding sw ih by simp
    next
      case 5
      then have "k \<noteq> nat i" "k \<noteq> nat j" using True "1.prems" by auto
      with 5 show ?thesis unfolding sw ih by simp
    qed
  qed
qed

lemma swapBetween_rev: "swapBetween xs 0 (int (length xs) - 1) = rev xs"
proof (rule nth_equalityI)
  show "length (swapBetween xs 0 (int (length xs) - 1)) = length (rev xs)" by simp
next
  fix k
  assume "k < length (swapBetween xs 0 (int (length xs) - 1))"
  then have k: "k < length xs" by simp
  then have "nat (0 + (int (length xs) - 1) - int k) = length xs - Suc k" by simp
  with k swapBetween_nth [of 0 "int (length xs) - 1" xs k]
  show "swapBetween xs 0 (int (length xs) - 1) ! k = rev xs ! k"
    by (simp add: rev_nth)
qed

lemma reverseGroup_loop_swaps:
  "0 \<le> i \<Longrightarrow> j < int (length (IDs tt)) \<Longrightarrow> parallel tt \<Longrightarrow>
     reverseGroup_loop tt i j =
       Inr (tt\<lparr>IDs := swapBetween (IDs tt) i j, Filters := swapBetween (Filters tt) i j,
              SeriesKeys := swapBetween (SeriesKeys tt) i j,
              TagsVec := swapBetween (TagsVec tt) i j\<rparr>)"
proof (induction tt i j rule: reverseGroup_loop.induct)
  case (1 tt i j)
  show ?case
  proof (cases "i < j")
    case False
    then show ?thesis
      by (subst reverseGroup_loop.simps) (simp add: swapBetween.simps [of _ i j])
  next
    case True
    let ?sw = "\<lambda>xs. xs[nat i := xs ! nat j, nat j := xs ! nat i]"
    let ?tt = "tt\<lparr>IDs := ?sw (IDs tt), Filters := ?sw (Filters tt),
                   SeriesKeys := ?sw (SeriesKeys tt), TagsVec := ?sw (TagsVec tt)\<rparr>"
    have rng: "0 \<le> i" "i < int (length (IDs tt))" "0 \<le> j" "j < int (length (IDs tt))"
      using True "1.prems" by auto
    have s: "swapAt (IDs tt) i j = Some (?sw (IDs tt))"
      "swapAt (Filters tt) i j = Some (?sw (Filters tt))"
      "swapAt (SeriesKeys tt) i j = Some (?sw (SeriesKeys tt))"
      "swapAt (TagsVec tt) i j = Some (?sw (TagsVec tt))"
      using rng "1.prems"(3) by (simp_all add: swapAt_def parallel_def)
    have p: "parallel ?tt" using "1.prems"(3) by (simp add: parallel_def)
    have "reverseGroup_loop tt i j = reverseGroup_loop ?tt (i + 1) (j - 1)"
      using True s by (subst reverseGroup_loop.simps) simp
    also have "\<dots> = Inr (?tt\<lparr>IDs := swapBetween (IDs ?tt) (i + 1) (j - 1),
              Filters := swapBetween (Filters ?tt) (i + 1) (j - 1),
              SeriesKeys := swapBetween (SeriesKeys ?tt) (i + 1) (j - 1),
              TagsVec := swapBetween (TagsVec ?tt) (i + 1) (j - 1)\<rparr>)"
      using "1.IH" [OF True s] rng p by simp
    finally show ?thesis
      using True by (simp add: swapBetween.simps [of _ i j])
  qed
qed

lemma reverseGroup_lockstep: "parallel tt \<Longrightarrow> reverseGroup tt = Inr (reverseInLockstep tt)"
  unfolding reverseGroup_def reverseInLockstep_def
  by (subst reverseGroup_loop_swaps) (simp_all add: parallel_def swapBetween_rev [symmetric])

lemma reverseInLockstep_twice [simp]: "reverseInLockstep (reverseInLockstep t) = t"
  by (simp add: reverseInLockstep_def)

lemma parallel_reverseInLockstep [simp]: "parallel (reverseInLockstep t) = parallel t"
  by (simp add: reverseInLockstep_def parallel_def)

lemma key_reverseInLockstep [simp]: "key (reverseInLockstep t) = key t"
  by (simp add: reverseInLockstep_def)

lemma reversedTimes_Suc: "reversedTimes (Suc n) t = reversedTimes n (reverseInLockstep t)"
  by (simp add: reversedTimes_def)

lemma reverseGroups_lockstep:
  "\<forall>p \<in> set ps. \<exists>t. st p = Some t \<and> parallel t \<Longrightarrow>
     reverseGroups st ps =
       Inr (\<lambda>p. if p \<in> set ps
                then map_option (reversedTimes (count_list ps p)) (st p) else st p)"
proof (induction ps arbitrary: st)
  case Nil
  then show ?case by simp
next
  case (Cons q ps)
  from Cons.prems obtain t where t: "st q = Some t" and pt: "parallel t" by auto
  let ?st = "st(q \<mapsto> reverseInLockstep t)"
  have "\<forall>p \<in> set ps. \<exists>t. ?st p = Some t \<and> parallel t"
    using Cons.prems pt by auto
  from Cons.IH [OF this]
  have ih: "reverseGroups ?st ps =
       Inr (\<lambda>p. if p \<in> set ps
                then map_option (reversedTimes (count_list ps p)) (?st p) else ?st p)" .
  have "(\<lambda>p. if p \<in> set ps
                then map_option (reversedTimes (count_list ps p)) (?st p) else ?st p)
      = (\<lambda>p. if p \<in> set (q # ps)
                then map_option (reversedTimes (count_list (q # ps) p)) (st p) else st p)"
  proof (rule ext)
    fix p
    show "(if p \<in> set ps
                then map_option (reversedTimes (count_list ps p)) (?st p) else ?st p)
      = (if p \<in> set (q # ps)
                then map_option (reversedTimes (count_list (q # ps) p)) (st p) else st p)"
    proof (cases "p = q")
      case True
      show ?thesis
      proof (cases "q \<in> set ps")
        case True
        with \<open>p = q\<close> t show ?thesis by (simp add: reversedTimes_Suc)
      next
        case False
        then have "count_list ps q = 0" by (simp add: count_list_0_iff)
        with False \<open>p = q\<close> t show ?thesis by (simp add: reversedTimes_def)
      qed
    next
      case False
      then show ?thesis by simp
    qed
  qed
  with ih t pt show ?case by (simp add: reverseGroup_lockstep)
qed

lemma mset_insertReverse [simp]: "mset (insertReverse st g gs) = add_mset g (mset gs)"
  by (induction gs) auto

lemma set_insertReverse [simp]: "set (insertReverse st g gs) = insert g (set gs)"
  by (induction gs) auto

lemma mset_sortReverse [simp]: "mset (sortReverse st gs) = mset gs"
  by (induction gs) (simp_all add: sortReverse_def)

lemma set_sortReverse [simp]: "set (sortReverse st gs) = set gs"
  using mset_sortReverse [of st gs] by (metis set_mset_mset)

lemma count_list_sortReverse [simp]: "count_list (sortReverse st gs) p = count_list gs p"
  using mset_sortReverse [of st gs] by (metis count_mset)

lemma GroupSeries_Less_keyAt:
  "st a \<noteq> None \<Longrightarrow> st b \<noteq> None \<Longrightarrow> GroupSeries_Less st a b \<longleftrightarrow> keyAt st a < keyAt st b"
  by (auto simp: GroupSeries_Less_def keyAt_def)

lemma insertReverse_last:
  "\<forall>x \<in> set gs. GroupSeries_Less st g x \<Longrightarrow> insertReverse st g gs = gs @ [g]"
  by (induction gs) auto

lemma sortReverse_ascending:
  "\<forall>p \<in> set gs. st p \<noteq> None \<Longrightarrow> sorted_wrt (\<lambda>a b. keyAt st a < keyAt st b) gs \<Longrightarrow>
     sortReverse st gs = rev gs"
proof (induction gs)
  case Nil
  then show ?case by (simp add: sortReverse_def)
next
  case (Cons g gs)
  then have ih: "sortReverse st gs = rev gs" by simp
  have "\<forall>x \<in> set (rev gs). GroupSeries_Less st g x"
    using Cons.prems by (auto simp: GroupSeries_Less_keyAt)
  from insertReverse_last [OF this] ih show ?case
    by (simp add: sortReverse_def)
qed

lemma insertReverse_descending:
  "st g \<noteq> None \<Longrightarrow> \<forall>p \<in> set gs. st p \<noteq> None \<Longrightarrow>
   sorted_wrt (\<lambda>a b. keyAt st b \<le> keyAt st a) gs \<Longrightarrow>
     sorted_wrt (\<lambda>a b. keyAt st b \<le> keyAt st a) (insertReverse st g gs)"
proof (induction gs)
  case Nil
  then show ?case by simp
next
  case (Cons x xs)
  show ?case
  proof (cases "GroupSeries_Less st g x")
    case True
    with Cons.prems have lt: "keyAt st g < keyAt st x" by (simp add: GroupSeries_Less_keyAt)
    have "\<forall>y \<in> set (insertReverse st g xs). keyAt st y \<le> keyAt st x"
    proof
      fix y
      assume "y \<in> set (insertReverse st g xs)"
      then have "y = g \<or> y \<in> set xs" by simp
      with lt Cons.prems(3) show "keyAt st y \<le> keyAt st x" by auto
    qed
    with True Cons show ?thesis by simp
  next
    case False
    with Cons.prems have "keyAt st x \<le> keyAt st g" by (simp add: GroupSeries_Less_keyAt)
    with False Cons.prems show ?thesis by auto
  qed
qed

lemma sortReverse_descending:
  "\<forall>p \<in> set gs. st p \<noteq> None \<Longrightarrow>
     sorted_wrt (\<lambda>a b. keyAt st b \<le> keyAt st a) (sortReverse st gs)"
proof (induction gs)
  case Nil
  then show ?case by (simp add: sortReverse_def)
next
  case (Cons g gs)
  then have "sorted_wrt (\<lambda>a b. keyAt st b \<le> keyAt st a) (sortReverse st gs)" by simp
  moreover have "\<forall>p \<in> set (sortReverse st gs). st p \<noteq> None" using Cons.prems by simp
  moreover have "st g \<noteq> None" using Cons.prems by simp
  ultimately have "sorted_wrt (\<lambda>a b. keyAt st b \<le> keyAt st a)
      (insertReverse st g (sortReverse st gs))"
    by (intro insertReverse_descending)
  then show ?case by (simp add: sortReverse_def)
qed

lemma TagSetInfo_Swap_lockstep:
  assumes "parallel t" and "0 \<le> i" "i < int (length (IDs t))" "0 \<le> j" "j < int (length (IDs t))"
  shows "TagSetInfo_Swap t i j =
     Inr (t\<lparr>SeriesKeys := (SeriesKeys t)[nat i := SeriesKeys t ! nat j, nat j := SeriesKeys t ! nat i],
            IDs := (IDs t)[nat i := IDs t ! nat j, nat j := IDs t ! nat i],
            TagsVec := (TagsVec t)[nat i := TagsVec t ! nat j, nat j := TagsVec t ! nat i],
            Filters := (Filters t)[nat i := Filters t ! nat j, nat j := Filters t ! nat i]\<rparr>)"
  using assms by (simp add: TagSetInfo_Swap_def swapAt_def parallel_def)

text \<open>
  Claim C9, as amended. On a slice whose pointers all hold groups with parallel arrays,
  \<open>Reverse\<close> returns. The slice after it is a permutation of the slice before it, in
  descending order of the keys of the groups; it is the reverse of the slice before when
  the keys were strictly ascending. A group outside the slice is not touched. A group of
  the slice has been reversed in lockstep once for each occurrence of its pointer in the
  slice, so a group that occurs once is reversed: position \<open>i\<close> of \<open>IDs\<close>, \<open>Filters\<close>,
  \<open>SeriesKeys\<close> and \<open>TagsVec\<close> then holds what position \<open>Len - 1 - i\<close> held before.
  \<open>TagSetInfo.Swap\<close> exchanges the positions \<open>i\<close> and \<open>j\<close> of all four arrays.
\<close>

theorem GroupSeries_Reverse_lockstep:
  assumes "\<forall>p \<in> set gs. \<exists>t. st p = Some t \<and> parallel t"
  shows "(\<exists>st' gs'. GroupSeries_Reverse st gs = Inr (st', gs')
            \<and> mset gs' = mset gs
            \<and> sorted_wrt (\<lambda>a b. keyAt st' b \<le> keyAt st' a) gs'
            \<and> (sorted_wrt (\<lambda>a b. keyAt st a < keyAt st b) gs \<longrightarrow> gs' = rev gs)
            \<and> (\<forall>p. st' p = (if p \<in> set gs
                              then map_option (reversedTimes (count_list gs p)) (st p)
                              else st p))
            \<and> (\<forall>p. count_list gs p = 1 \<longrightarrow> st' p = map_option reverseInLockstep (st p))
            \<and> (\<forall>p t. count_list gs p = 1 \<and> st p = Some t \<longrightarrow>
                  (\<exists>t'. st' p = Some t' \<and> parallel t' \<and> length (IDs t') = length (IDs t)
                     \<and> (\<forall>i < length (IDs t).
                           IDs t' ! i = IDs t ! (length (IDs t) - 1 - i)
                           \<and> Filters t' ! i = Filters t ! (length (IDs t) - 1 - i)
                           \<and> SeriesKeys t' ! i = SeriesKeys t ! (length (IDs t) - 1 - i)
                           \<and> TagsVec t' ! i = TagsVec t ! (length (IDs t) - 1 - i)))))
       \<and> (\<forall>p \<in> set gs. \<forall>t i j. st p = Some t
              \<and> 0 \<le> i \<and> i < int (length (IDs t)) \<and> 0 \<le> j \<and> j < int (length (IDs t)) \<longrightarrow>
            TagSetInfo_Swap t i j =
              Inr (t\<lparr>SeriesKeys := (SeriesKeys t)[nat i := SeriesKeys t ! nat j, nat j := SeriesKeys t ! nat i],
                     IDs := (IDs t)[nat i := IDs t ! nat j, nat j := IDs t ! nat i],
                     TagsVec := (TagsVec t)[nat i := TagsVec t ! nat j, nat j := TagsVec t ! nat i],
                     Filters := (Filters t)[nat i := Filters t ! nat j, nat j := Filters t ! nat i]\<rparr>))"
proof -
  let ?gs = "sortReverse st gs"
  let ?st = "\<lambda>p. if p \<in> set gs then map_option (reversedTimes (count_list gs p)) (st p) else st p"
  have alloc: "\<forall>p \<in> set gs. st p \<noteq> None" using assms by auto
  then have nonil: "\<not> (\<exists>p \<in> set gs. st p = None)" by simp
  have "\<forall>p \<in> set ?gs. \<exists>t. st p = Some t \<and> parallel t" using assms by simp
  from reverseGroups_lockstep [OF this]
  have "reverseGroups st ?gs =
          Inr (\<lambda>p. if p \<in> set ?gs
                   then map_option (reversedTimes (count_list ?gs p)) (st p) else st p)" .
  moreover have "(\<lambda>p. if p \<in> set ?gs
                   then map_option (reversedTimes (count_list ?gs p)) (st p) else st p) = ?st"
    by (auto simp: fun_eq_iff)
  ultimately have "reverseGroups st ?gs = Inr ?st" by (simp only:)
  with nonil have r: "GroupSeries_Reverse st gs = Inr (?st, ?gs)"
    by (simp add: GroupSeries_Reverse_def)
  have keys: "keyAt ?st p = keyAt st p" for p
    by (cases "st p") (auto simp: keyAt_def reversedTimes_def)
  have desc: "sorted_wrt (\<lambda>a b. keyAt ?st b \<le> keyAt ?st a) ?gs"
    using sortReverse_descending [OF alloc] by (simp only: keys)
  have asc: "?gs = rev gs" if "sorted_wrt (\<lambda>a b. keyAt st a < keyAt st b) gs"
    using alloc that by (rule sortReverse_ascending)
  have once: "?st p = map_option reverseInLockstep (st p)" if "count_list gs p = 1" for p
  proof -
    from that have "p \<in> set gs" by (metis count_list_0_iff zero_neq_one)
    with that show ?thesis
      by (cases "st p") (simp_all add: reversedTimes_def)
  qed
  have c: "\<forall>i < length (IDs t).
              IDs (reverseInLockstep t) ! i = IDs t ! (length (IDs t) - 1 - i)
            \<and> Filters (reverseInLockstep t) ! i = Filters t ! (length (IDs t) - 1 - i)
            \<and> SeriesKeys (reverseInLockstep t) ! i = SeriesKeys t ! (length (IDs t) - 1 - i)
            \<and> TagsVec (reverseInLockstep t) ! i = TagsVec t ! (length (IDs t) - 1 - i)"
    if "parallel t" for t
    using that by (auto simp: reverseInLockstep_def parallel_def rev_nth)
  have nth: "\<exists>t'. ?st p = Some t' \<and> parallel t' \<and> length (IDs t') = length (IDs t)
                     \<and> (\<forall>i < length (IDs t).
                           IDs t' ! i = IDs t ! (length (IDs t) - 1 - i)
                           \<and> Filters t' ! i = Filters t ! (length (IDs t) - 1 - i)
                           \<and> SeriesKeys t' ! i = SeriesKeys t ! (length (IDs t) - 1 - i)
                           \<and> TagsVec t' ! i = TagsVec t ! (length (IDs t) - 1 - i))"
    if n: "count_list gs p = 1" and t: "st p = Some t" for p t
  proof -
    from n have m: "p \<in> set gs" by (metis count_list_0_iff zero_neq_one)
    with assms t have pt: "parallel t" by auto
    from m n t have "?st p = Some (reverseInLockstep t)" by (simp add: reversedTimes_def)
    moreover have "parallel (reverseInLockstep t)" using pt by simp
    moreover have "length (IDs (reverseInLockstep t)) = length (IDs t)"
      by (simp add: reverseInLockstep_def)
    ultimately show ?thesis using c [OF pt] by blast
  qed
  have a: "\<exists>st' gs'. GroupSeries_Reverse st gs = Inr (st', gs')
            \<and> mset gs' = mset gs
            \<and> sorted_wrt (\<lambda>a b. keyAt st' b \<le> keyAt st' a) gs'
            \<and> (sorted_wrt (\<lambda>a b. keyAt st a < keyAt st b) gs \<longrightarrow> gs' = rev gs)
            \<and> (\<forall>p. st' p = (if p \<in> set gs
                              then map_option (reversedTimes (count_list gs p)) (st p)
                              else st p))
            \<and> (\<forall>p. count_list gs p = 1 \<longrightarrow> st' p = map_option reverseInLockstep (st p))
            \<and> (\<forall>p t. count_list gs p = 1 \<and> st p = Some t \<longrightarrow>
                  (\<exists>t'. st' p = Some t' \<and> parallel t' \<and> length (IDs t') = length (IDs t)
                     \<and> (\<forall>i < length (IDs t).
                           IDs t' ! i = IDs t ! (length (IDs t) - 1 - i)
                           \<and> Filters t' ! i = Filters t ! (length (IDs t) - 1 - i)
                           \<and> SeriesKeys t' ! i = SeriesKeys t ! (length (IDs t) - 1 - i)
                           \<and> TagsVec t' ! i = TagsVec t ! (length (IDs t) - 1 - i))))"
  proof (intro exI conjI)
    show "GroupSeries_Reverse st gs = Inr (?st, ?gs)" by (rule r)
    show "mset ?gs = mset gs" by simp
    show "sorted_wrt (\<lambda>a b. keyAt ?st b \<le> keyAt ?st a) ?gs" by (rule desc)
    show "sorted_wrt (\<lambda>a b. keyAt st a < keyAt st b) gs \<longrightarrow> ?gs = rev gs"
      using asc by blast
    show "\<forall>p. ?st p = (if p \<in> set gs
                              then map_option (reversedTimes (count_list gs p)) (st p)
                              else st p)" by simp
    show "\<forall>p. count_list gs p = 1 \<longrightarrow> ?st p = map_option reverseInLockstep (st p)"
      using once by blast
    show "\<forall>p t. count_list gs p = 1 \<and> st p = Some t \<longrightarrow>
                  (\<exists>t'. ?st p = Some t' \<and> parallel t' \<and> length (IDs t') = length (IDs t)
                     \<and> (\<forall>i < length (IDs t).
                           IDs t' ! i = IDs t ! (length (IDs t) - 1 - i)
                           \<and> Filters t' ! i = Filters t ! (length (IDs t) - 1 - i)
                           \<and> SeriesKeys t' ! i = SeriesKeys t ! (length (IDs t) - 1 - i)
                           \<and> TagsVec t' ! i = TagsVec t ! (length (IDs t) - 1 - i)))"
      using nth by blast
  qed
  have d: "TagSetInfo_Swap t i j =
              Inr (t\<lparr>SeriesKeys := (SeriesKeys t)[nat i := SeriesKeys t ! nat j, nat j := SeriesKeys t ! nat i],
                     IDs := (IDs t)[nat i := IDs t ! nat j, nat j := IDs t ! nat i],
                     TagsVec := (TagsVec t)[nat i := TagsVec t ! nat j, nat j := TagsVec t ! nat i],
                     Filters := (Filters t)[nat i := Filters t ! nat j, nat j := Filters t ! nat i]\<rparr>)"
    if "p \<in> set gs" "st p = Some t" "0 \<le> i" "i < int (length (IDs t))" "0 \<le> j"
      "j < int (length (IDs t))" for p t i j
  proof -
    from that assms have "parallel t" by auto
    from TagSetInfo_Swap_lockstep [OF this that(3-6)] show ?thesis .
  qed
  from a d show ?thesis by blast
qed

theorem GroupSeries_Reverse_lockstep_witness:
  "parallel groupA \<and> parallel groupB
   \<and> sorted_wrt (\<lambda>a b. keyAt groupStore a < keyAt groupStore b) [0, 1]
   \<and> sliceAfter (GroupSeries_Reverse groupStore [0, 1]) = [1, 0]
   \<and> groupAfter (GroupSeries_Reverse groupStore [0, 1]) 0 = Some (reverseInLockstep groupA)
   \<and> groupAfter (GroupSeries_Reverse groupStore [0, 1]) 1 =
       Some \<lparr>ref = 1, IDs = [5, 4, 3], Filters = [BooleanLiteral True, NilExpr, NilExpr],
             SeriesKeys = [[50], [40], [30]], TagsVec = [[(host, [98])], [(host, [97])], []],
             key = [98]\<rparr>
   \<and> groupAfter (GroupSeries_Reverse groupStore [0, 1]) 2 = Some groupC
   \<and> groupAfter (GroupSeries_Reverse groupStore [0, 0, 1]) 0 = Some groupA
   \<and> sliceAfter (GroupSeries_Reverse groupStore [0, 3, 1]) = [1, 0, 3]
   \<and> sliceAfter (GroupSeries_Reverse groupStore [3, 0, 1]) = [1, 3, 0]
   \<and> TagSetInfo_Swap groupA 0 1 = Inr (reverseInLockstep groupA)"
proof -
  have h: "\<forall>p \<in> set [0, 1]. \<exists>t. groupStore p = Some t \<and> parallel t"
    by (simp add: groupStore_def parallel_def groupA_def groupB_def)
  have p: "parallel groupA \<and> parallel groupB" by code_simp
  have s: "sorted_wrt (\<lambda>a b. keyAt groupStore a < keyAt groupStore b) [0, 1]" by code_simp
  have c: "count_list [0, 1 :: addr] 0 = 1" "count_list [0, 1 :: addr] 1 = 1" by simp_all
  have g: "groupStore 0 = Some groupA" "groupStore 1 = Some groupB" "groupStore 2 = Some groupC"
    by (simp_all add: groupStore_def)
  have e: "reverseInLockstep groupB =
       \<lparr>ref = 1, IDs = [5, 4, 3], Filters = [BooleanLiteral True, NilExpr, NilExpr],
             SeriesKeys = [[50], [40], [30]], TagsVec = [[(host, [98])], [(host, [97])], []],
             key = [98]\<rparr>" by code_simp
  have sw: "TagSetInfo_Swap groupA 0 1 = Inr (reverseInLockstep groupA)" by code_simp
  have twice: "groupAfter (GroupSeries_Reverse groupStore [0, 0, 1]) 0 = Some groupA"
    by code_simp
  have ties: "sliceAfter (GroupSeries_Reverse groupStore [0, 3, 1]) = [1, 0, 3]"
    "sliceAfter (GroupSeries_Reverse groupStore [3, 0, 1]) = [1, 3, 0]" by code_simp+
  from GroupSeries_Reverse_lockstep [OF h] s obtain st' gs'
    where r: "GroupSeries_Reverse groupStore [0, 1] = Inr (st', gs')"
      and o: "gs' = rev [0, 1]"
      and st: "\<forall>p. st' p = (if p \<in> set [0, 1 :: addr]
                              then map_option (reversedTimes (count_list [0, 1] p)) (groupStore p)
                              else groupStore p)"
      and on: "\<forall>p. count_list [0, 1] p = 1 \<longrightarrow> st' p = map_option reverseInLockstep (groupStore p)"
    by blast
  from on c g have "st' 0 = Some (reverseInLockstep groupA)" "st' 1 = Some (reverseInLockstep groupB)"
    by simp_all
  moreover from st g have "st' 2 = Some groupC" by simp
  ultimately show ?thesis
    using r o p s e sw twice ties(1) ties(2) by (simp add: sliceAfter_def groupAfter_def)
qed

text \<open>
  Claim C9 as stated fails on the slice of the groups with the keys \<open>a\<close>, \<open>c\<close>, \<open>b\<close>:
  \<open>Reverse\<close> leaves them in the order \<open>c\<close>, \<open>b\<close>, \<open>a\<close>, which is not the reverse of the
  order before. It also fails on a slice that holds the same pointer twice: the group
  is reversed twice and is as it was.
\<close>

theorem GroupSeries_Reverse_sorts_counterexample:
  "parallel groupA \<and> parallel groupB \<and> parallel groupC
   \<and> sliceAfter (GroupSeries_Reverse groupStore [0, 2, 1]) = [2, 1, 0]
   \<and> rev [0, 2, 1] = [1, 2, 0 :: addr]
   \<and> groupAfter (GroupSeries_Reverse groupStore [0, 0]) 0 = Some groupA
   \<and> groupA \<noteq> reverseInLockstep groupA"
  by code_simp

section \<open>Series keys: deleted and stale entries\<close>

lemma getAllSeriesKeys_loop_sound:
  "getAllSeriesKeys_loop P is pfx cur keys = Inr ks \<Longrightarrow>
     ks = keys @ map seriesKeyOf
                   (filter (liveSeriesKey P is) (takeWhile (\<lambda>item. HasPrefix item pfx) cur))"
proof (induction cur arbitrary: keys)
  case Nil
  then show ?case by (simp split: option.splits)
next
  case (Cons item rest)
  show ?case
  proof (cases "HasPrefix item pfx")
    case False
    with Cons.prems show ?thesis by simp
  next
    case True
    note hp = True
    from Cons.prems hp have ne: "item \<noteq> []" and len: "\<not> length (tl item) < 8"
      by (auto simp: Let_def split: if_splits)
    show ?thesis
    proof (cases "tsidOf item \<in> getDeletedTSIDs is")
      case True
      with Cons.prems hp ne len
      have "getAllSeriesKeys_loop P is pfx rest keys = Inr ks"
        by (simp add: Let_def tsidOf_def)
      from Cons.IH [OF this] True hp show ?thesis
        by (simp add: liveSeriesKey_def)
    next
      case False
      note nd = False
      show ?thesis
      proof (cases "MeasurementName P (seriesKeyOf item)")
        case (Inl e)
        with Cons.prems hp ne len nd show ?thesis
          by (simp add: Let_def tsidOf_def seriesKeyOf_def)
      next
        case (Inr mn)
        with Cons.prems hp ne len nd have l2: "\<not> length (seriesKeyOf item) < 2"
          by (auto simp: Let_def tsidOf_def seriesKeyOf_def split: if_splits)
        show ?thesis
        proof (cases "liveSeriesKey P is item")
          case True
          with Cons.prems hp ne len nd Inr l2
          have "getAllSeriesKeys_loop P is pfx rest (keys @ [seriesKeyOf item]) = Inr ks"
            by (auto simp: Let_def tsidOf_def seriesKeyOf_def liveSeriesKey_def keyVersionOf_def
                split: option.splits if_splits)
          from Cons.IH [OF this] True hp show ?thesis by simp
        next
          case False
          with Cons.prems hp ne len nd Inr l2
          have "getAllSeriesKeys_loop P is pfx rest keys = Inr ks"
            by (auto simp: Let_def tsidOf_def seriesKeyOf_def liveSeriesKey_def keyVersionOf_def
                split: option.splits if_splits)
          from Cons.IH [OF this] False hp show ?thesis by simp
        qed
      qed
    qed
  qed
qed

lemma getAllSeriesKeys_loop_total:
  "tsError is = None \<Longrightarrow>
   \<forall>item \<in> set (takeWhile (\<lambda>item. HasPrefix item pfx) cur). decodableRow P is item \<Longrightarrow>
     \<exists>ks. getAllSeriesKeys_loop P is pfx cur keys = Inr ks"
proof (induction cur arbitrary: keys)
  case Nil
  then show ?case by simp
next
  case (Cons item rest)
  show ?case
  proof (cases "HasPrefix item pfx")
    case False
    then show ?thesis by simp
  next
    case True
    with Cons.prems have d: "decodableRow P is item"
      and r: "\<forall>item \<in> set (takeWhile (\<lambda>item. HasPrefix item pfx) rest). decodableRow P is item"
      by auto
    from d have ne: "item \<noteq> []" and len: "\<not> length (tl item) < 8"
      by (auto simp: decodableRow_def)
    from Cons.IH [OF Cons.prems(1) r] d True ne len show ?thesis
      by (auto simp: Let_def decodableRow_def tsidOf_def seriesKeyOf_def
          split: sum.splits option.splits)
  qed
qed

text \<open>
  Claim C7. On a sorted table, whenever \<open>getAllSeriesKeys\<close> returns keys they are exactly
  the stored series keys, in table order, whose TSID is not deleted and whose trailing
  2-byte version equals the current version of their measurement when one is recorded;
  it does return them when the cursor reports no error and every stored row can be
  decoded. In particular no returned key carries a version other than the recorded one.
\<close>

theorem getAllSeriesKeys_live_keys:
  assumes "sorted (items is)"
  shows "(getAllSeriesKeys P is = Inr ks \<longrightarrow> ks = liveSeriesKeys P is)
       \<and> (tsError is = None
            \<and> (\<forall>item \<in> set (items is).
                  HasPrefix item (MarshalCommonPrefix P [] (nsPrefixTSIDToKey P)) \<longrightarrow>
                    decodableRow P is item) \<longrightarrow>
            getAllSeriesKeys P is = Inr (liveSeriesKeys P is))
       \<and> (getAllSeriesKeys P is = Inr ks \<and> k \<in> set ks \<and> MeasurementName P k = Inr mn
            \<and> getVersion is mn = Some version \<longrightarrow> keyVersionOf k = version)"
proof -
  let ?pfx = "MarshalCommonPrefix P [] (nsPrefixTSIDToKey P)"
  have rows: "takeWhile (\<lambda>item. HasPrefix item ?pfx) (Seek (items is) ?pfx)
                = filter (\<lambda>item. HasPrefix item ?pfx) (items is)"
    using assms by (rule Seek_prefix_rows)
  have a: "ks = liveSeriesKeys P is" if "getAllSeriesKeys P is = Inr ks" for ks
    using getAllSeriesKeys_loop_sound [of P "is" ?pfx "Seek (items is) ?pfx" "[]" ks] that
    by (simp add: getAllSeriesKeys_def Let_def liveSeriesKeys_def rows)
  have b: "getAllSeriesKeys P is = Inr (liveSeriesKeys P is)"
    if "tsError is = None"
      "\<forall>item \<in> set (items is). HasPrefix item ?pfx \<longrightarrow> decodableRow P is item"
  proof -
    have "\<forall>item \<in> set (takeWhile (\<lambda>item. HasPrefix item ?pfx) (Seek (items is) ?pfx)).
            decodableRow P is item"
      using that(2) by (simp add: rows)
    from getAllSeriesKeys_loop_total [OF that(1) this, of "[]"]
    obtain ks where "getAllSeriesKeys P is = Inr ks"
      by (auto simp: getAllSeriesKeys_def Let_def)
    with a [of ks] show ?thesis by simp
  qed
  have c: "keyVersionOf k = version"
    if "getAllSeriesKeys P is = Inr ks" "k \<in> set ks" "MeasurementName P k = Inr mn"
      "getVersion is mn = Some version"
  proof -
    from a [OF that(1)] that(2) obtain item
      where "k = seriesKeyOf item" "liveSeriesKey P is item"
      by (auto simp: liveSeriesKeys_def)
    with that(3,4) show ?thesis by (simp add: liveSeriesKey_def)
  qed
  from a b c show ?thesis by blast
qed

theorem getAllSeriesKeys_live_keys_witness:
  "sorted (items keysIndex) \<and> tsError keysIndex = None
   \<and> decodableRow demoPkg keysIndex keyRow1 \<and> decodableRow demoPkg keysIndex keyRow2
   \<and> decodableRow demoPkg keysIndex keyRow3
   \<and> liveSeriesKeys demoPkg keysIndex = [[3, 99, 112, 117, 0, 2]]
   \<and> getAllSeriesKeys demoPkg keysIndex = Inr [[3, 99, 112, 117, 0, 2]]
   \<and> getAllSeriesKeys demoPkg (keysIndex\<lparr>getVersion := (\<lambda>mn. None)\<rparr>)
       = Inr [[3, 99, 112, 117, 0, 1], [3, 99, 112, 117, 0, 2]]"
proof -
  have h1: "sorted (items keysIndex)" by code_simp
  have h2: "tsError keysIndex = None" by code_simp
  have h3: "\<forall>item \<in> set (items keysIndex).
              HasPrefix item (MarshalCommonPrefix demoPkg [] (nsPrefixTSIDToKey demoPkg)) \<longrightarrow>
                decodableRow demoPkg keysIndex item" by code_simp
  have d: "decodableRow demoPkg keysIndex keyRow1 \<and> decodableRow demoPkg keysIndex keyRow2
   \<and> decodableRow demoPkg keysIndex keyRow3" by code_simp
  have e: "liveSeriesKeys demoPkg keysIndex = [[3, 99, 112, 117, 0, 2]]" by code_simp
  have f: "getAllSeriesKeys demoPkg (keysIndex\<lparr>getVersion := (\<lambda>mn. None)\<rparr>)
       = Inr [[3, 99, 112, 117, 0, 1], [3, 99, 112, 117, 0, 2]]" by code_simp
  from getAllSeriesKeys_live_keys [OF h1, of demoPkg] h2 h3
  have "getAllSeriesKeys demoPkg keysIndex = Inr (liveSeriesKeys demoPkg keysIndex)"
    by blast
  with h1 h2 d e f show ?thesis by simp
qed

section \<open>Fast path and slow path\<close>

lemma row_value_tail:
  assumes "item = pfx @ v @ tagSeparatorChar P # t" and "tagSeparatorChar P \<notin> set v"
  shows "rowValue P pfx item = v" and "rowTail P pfx item = t"
proof -
  have d: "drop (length pfx) item = v @ tagSeparatorChar P # t" by (simp add: assms(1))
  have n: "IndexByte (v @ tagSeparatorChar P # t) (tagSeparatorChar P) = int (length v)"
    using assms(2) by (rule IndexByte_append)
  show "rowValue P pfx item = v" unfolding rowValue_def d n by simp
  show "rowTail P pfx item = t" unfolding rowTail_def d n by simp
qed

lemma wellFormedRow_shape:
  assumes "HasPrefix item pfx" and "wellFormedRow P pfx item"
  shows "\<exists>v t ids. item = pfx @ v @ tagSeparatorChar P # t \<and> tagSeparatorChar P \<notin> set v
           \<and> InitOnlyTail P item t = Inr ids"
proof -
  from assms(2) have "0 \<le> IndexByte (drop (length pfx) item) (tagSeparatorChar P)"
    by (simp add: wellFormedRow_def)
  from row_decomp [OF assms(1) this] obtain v t
    where i: "item = pfx @ v @ tagSeparatorChar P # t" and v: "tagSeparatorChar P \<notin> set v"
    by auto
  from row_value_tail(2) [OF i v] assms(2) obtain ids where "InitOnlyTail P item t = Inr ids"
    by (auto simp: wellFormedRow_def split: sum.splits)
  with i v show ?thesis by blast
qed

lemma under_exact_prefix:
  assumes "tagSeparatorChar P \<notin> set s"
  shows "HasPrefix item (pfx @ s @ [tagSeparatorChar P]) \<longleftrightarrow>
           HasPrefix item pfx \<and> 0 \<le> IndexByte (drop (length pfx) item) (tagSeparatorChar P)
           \<and> rowValue P pfx item = s"
proof
  assume "HasPrefix item (pfx @ s @ [tagSeparatorChar P])"
  then obtain t where i: "item = pfx @ s @ tagSeparatorChar P # t"
    by (auto simp: HasPrefix_append)
  have "IndexByte (drop (length pfx) item) (tagSeparatorChar P) = int (length s)"
    using assms by (simp add: i IndexByte_append)
  with row_value_tail(1) [OF i assms] i
  show "HasPrefix item pfx \<and> 0 \<le> IndexByte (drop (length pfx) item) (tagSeparatorChar P)
           \<and> rowValue P pfx item = s"
    by (simp add: HasPrefix_append)
next
  assume a: "HasPrefix item pfx \<and> 0 \<le> IndexByte (drop (length pfx) item) (tagSeparatorChar P)
           \<and> rowValue P pfx item = s"
  then obtain v t where i: "item = pfx @ v @ tagSeparatorChar P # t"
    and v: "tagSeparatorChar P \<notin> set v"
    using row_decomp [of item pfx "tagSeparatorChar P"] by auto
  from row_value_tail(1) [OF i v] a have "v = s" by simp
  with i show "HasPrefix item (pfx @ s @ [tagSeparatorChar P])"
    by (simp add: HasPrefix_append)
qed

lemma exact_prefix_tail:
  assumes "tagSeparatorChar P \<notin> set s" and "HasPrefix item (pfx @ s @ [tagSeparatorChar P])"
  shows "drop (length (pfx @ s @ [tagSeparatorChar P])) item = rowTail P pfx item"
proof -
  from assms(2) obtain t where i: "item = pfx @ s @ tagSeparatorChar P # t"
    by (auto simp: HasPrefix_append)
  from row_value_tail(2) [OF i assms(1)] i show ?thesis by simp
qed

text \<open>The fast path.\<close>

lemma updateTSIDsByOrSuffix_loop_result:
  "\<forall>item \<in> set cur. HasPrefix item k \<longrightarrow> (\<exists>ids. InitOnlyTail P item (drop (length k) item) = Inr ids) \<Longrightarrow>
     updateTSIDsByOrSuffix_loop P None k cur tsids =
       Inr (tsids \<union> (\<Union>item \<in> set (takeWhile (\<lambda>item. HasPrefix item k) cur).
                      case InitOnlyTail P item (drop (length k) item) of
                        Inl e \<Rightarrow> {} | Inr ids \<Rightarrow> set ids))"
proof (induction cur arbitrary: tsids)
  case Nil
  then show ?case by simp
next
  case (Cons item rest)
  show ?case
  proof (cases "HasPrefix item k")
    case False
    then show ?thesis by simp
  next
    case True
    with Cons.prems obtain ids where ids: "InitOnlyTail P item (drop (length k) item) = Inr ids"
      by auto
    from Cons.prems have "\<forall>item \<in> set rest. HasPrefix item k \<longrightarrow>
        (\<exists>ids. InitOnlyTail P item (drop (length k) item) = Inr ids)" by simp
    from Cons.IH [OF this, of "tsids \<union> set ids"] True ids show ?thesis
      by (simp add: Un_assoc)
  qed
qed

lemma updateTSIDsByOrSuffix_result:
  assumes so: "sorted (items is)" and er: "tsError is = None"
    and s: "tagSeparatorChar P \<notin> set s"
    and wf: "\<forall>item \<in> set (items is). HasPrefix item pfx \<longrightarrow> wellFormedRow P pfx item"
  shows "updateTSIDsByOrSuffix P is (pfx @ s @ [tagSeparatorChar P]) tsids =
           Inr (tsids \<union> matchingTSIDs P pfx [s] (items is))"
proof -
  let ?k = "pfx @ s @ [tagSeparatorChar P]"
  have ok: "\<exists>ids. InitOnlyTail P item (drop (length ?k) item) = Inr ids"
    if "item \<in> set (items is)" "HasPrefix item ?k" for item
  proof -
    from that(2) have hp: "HasPrefix item pfx"
      using under_exact_prefix [OF s, of item pfx] by simp
    with wf that(1) have "wellFormedRow P pfx item" by simp
    then show ?thesis
      unfolding exact_prefix_tail [OF s that(2)]
      by (auto simp: wellFormedRow_def split: sum.splits)
  qed
  then have ok': "\<forall>item \<in> set (Seek (items is) ?k). HasPrefix item ?k \<longrightarrow>
      (\<exists>ids. InitOnlyTail P item (drop (length ?k) item) = Inr ids)"
    using set_Seek by blast
  have rows: "set (takeWhile (\<lambda>item. HasPrefix item ?k) (Seek (items is) ?k))
                = {item \<in> set (items is). HasPrefix item ?k}"
    using Seek_prefix_rows [OF so, of ?k] by simp
  have eq: "(\<Union>item \<in> {item \<in> set (items is). HasPrefix item ?k}.
               case InitOnlyTail P item (drop (length ?k) item) of Inl e \<Rightarrow> {} | Inr ids \<Rightarrow> set ids)
           = matchingTSIDs P pfx [s] (items is)"
  proof -
    have a: "{item \<in> set (items is). HasPrefix item ?k}
        = {item \<in> set (items is). HasPrefix item pfx \<and> rowValue P pfx item \<in> set [s]}"
    proof (rule Collect_cong)
      fix item
      show "(item \<in> set (items is) \<and> HasPrefix item ?k)
        = (item \<in> set (items is) \<and> HasPrefix item pfx \<and> rowValue P pfx item \<in> set [s])"
        using under_exact_prefix [OF s, of item pfx] wf
        by (auto simp: wellFormedRow_def)
    qed
    have b: "(case InitOnlyTail P item (drop (length ?k) item) of Inl e \<Rightarrow> {} | Inr ids \<Rightarrow> set ids)
        = rowTSIDs P pfx item" if "HasPrefix item ?k" for item
      unfolding exact_prefix_tail [OF s that] rowTSIDs_def ..
    show ?thesis
      unfolding matchingTSIDs_def a [symmetric]
      using b by (intro arg_cong [where f = Union] image_cong) auto
  qed
  show ?thesis
    unfolding updateTSIDsByOrSuffix_def er updateTSIDsByOrSuffix_loop_result [OF ok'] rows eq
    by (rule refl)
qed

lemma matchingTSIDs_Cons:
  "matchingTSIDs P pfx (s # ss) rows = matchingTSIDs P pfx [s] rows \<union> matchingTSIDs P pfx ss rows"
  by (auto simp: matchingTSIDs_def)

lemma matchingTSIDs_Nil [simp]: "matchingTSIDs P pfx [] rows = {}"
  by (simp add: matchingTSIDs_def)

lemma updateTSIDsByOrSuffixes_loop_result:
  assumes so: "sorted (items is)" and er: "tsError is = None"
    and wf: "\<forall>item \<in> set (items is). HasPrefix item pfx \<longrightarrow> wellFormedRow P pfx item"
  shows "\<forall>s \<in> set ss. tagSeparatorChar P \<notin> set s \<Longrightarrow>
           updateTSIDsByOrSuffixes_loop P is pfx ss tsids =
             Inr (tsids \<union> matchingTSIDs P pfx ss (items is))"
proof (induction ss arbitrary: tsids)
  case Nil
  then show ?case by simp
next
  case (Cons s ss)
  then have s: "tagSeparatorChar P \<notin> set s" and ss: "\<forall>s \<in> set ss. tagSeparatorChar P \<notin> set s"
    by auto
  show ?case
    unfolding updateTSIDsByOrSuffixes_loop.simps updateTSIDsByOrSuffix_result [OF so er s wf]
    using Cons.IH [OF ss] by (simp add: matchingTSIDs_Cons [of P pfx s ss] Un_assoc)
qed

lemma matchingTSIDs_rows:
  "matchingTSIDs P pfx values (item # rest) =
     (if HasPrefix item pfx \<and> rowValue P pfx item \<in> set values then rowTSIDs P pfx item else {})
     \<union> matchingTSIDs P pfx values rest"
  by (auto simp: matchingTSIDs_def)

lemma matchingTSIDs_none:
  "\<forall>item \<in> set rows. \<not> HasPrefix item pfx \<Longrightarrow> matchingTSIDs P pfx values rows = {}"
  by (auto simp: matchingTSIDs_def)

lemma matchingTSIDs_skip:
  assumes "set rows' \<subseteq> set rows"
    and "\<forall>item \<in> set rows. item \<notin> set rows' \<longrightarrow> \<not> (HasPrefix item pfx \<and> rowValue P pfx item \<in> set values)"
  shows "matchingTSIDs P pfx values rows' = matchingTSIDs P pfx values rows"
proof -
  have "{item \<in> set rows'. HasPrefix item pfx \<and> rowValue P pfx item \<in> set values}
      = {item \<in> set rows. HasPrefix item pfx \<and> rowValue P pfx item \<in> set values}"
    using assms by blast
  then show ?thesis by (simp add: matchingTSIDs_def)
qed

lemma slow_loop_result:
  "tagSeparatorChar P < 255 \<Longrightarrow> err = None \<Longrightarrow> flt = None \<Longrightarrow>
   \<forall>v. tagSeparatorChar P \<notin> set v \<longrightarrow>
         matchSuffix P tf (v @ [tagSeparatorChar P]) = Inr (v \<in> set values) \<Longrightarrow>
   sorted cur \<Longrightarrow> \<forall>x \<in> set cur. prefix tf \<le> x \<Longrightarrow>
   \<forall>item \<in> set cur. HasPrefix item (prefix tf) \<longrightarrow> wellFormedRow P (prefix tf) item \<Longrightarrow>
   (pm \<longrightarrow> matchSuffix P tf ps = Inr True) \<Longrightarrow>
     getTSIDsForTagFilterSlow_loop P err tf flt pm ps cur tsids =
       Inr (tsids \<union> matchingTSIDs P (prefix tf) values cur)"
proof (induction P err tf flt pm ps cur tsids rule: getTSIDsForTagFilterSlow_loop.induct)
  case (1 P err tf flt pm ps tsids)
  then show ?case by (simp add: matchingTSIDs_def)
next
  case (2 P err tf flt pm ps item rest tsids)
  let ?c = "tagSeparatorChar P"
  let ?pfx = "prefix tf"
  note sep = "2.prems"(1) and er = "2.prems"(2) and fl = "2.prems"(3) and matcher = "2.prems"(4)
  from "2.prems" have srest: "sorted rest" and ge: "\<forall>x \<in> set rest. ?pfx \<le> x"
    and wf: "\<forall>item \<in> set rest. HasPrefix item ?pfx \<longrightarrow> wellFormedRow P ?pfx item"
    by auto
  show ?case
  proof (cases "HasPrefix item ?pfx")
    case False
    then have row: "getTSIDsForTagFilterSlow_row P tf flt pm ps item = Done"
      by (simp add: slow_row_Done)
    have "\<not> HasPrefix x ?pfx" if "x \<in> set (item # rest)" for x
    proof (cases "x = item")
      case True
      with False show ?thesis by simp
    next
      case neq: False
      with that "2.prems"(5) have "item \<le> x" by auto
      moreover from "2.prems"(6) have "?pfx \<le> item" by simp
      ultimately show ?thesis using False past_prefix by blast
    qed
    then have "matchingTSIDs P ?pfx values (item # rest) = {}"
      by (intro matchingTSIDs_none) blast
    with row show ?thesis by simp
  next
    case True
    with "2.prems"(7) have "wellFormedRow P ?pfx item" by simp
    from wellFormedRow_shape [OF True this] obtain v t ids
      where i: "item = ?pfx @ v @ ?c # t" and v: "?c \<notin> set v"
        and ids: "InitOnlyTail P item t = Inr ids"
      by auto
    have val: "rowValue P ?pfx item = v" and tsd: "rowTSIDs P ?pfx item = set ids"
      using row_value_tail [OF i v] ids by (simp_all add: rowTSIDs_def)
    have m: "matchSuffix P tf (v @ [?c]) = Inr (v \<in> set values)"
      using matcher v by simp
    have M: "matchingTSIDs P ?pfx values (item # rest) =
        (if v \<in> set values then set ids else {}) \<union> matchingTSIDs P ?pfx values rest"
      using True by (simp add: matchingTSIDs_rows val tsd)
    note row = slow_row_explicit [OF v refl i, of flt pm ps, unfolded ids fl, simplified]
    show ?thesis
    proof (cases "pm \<and> v @ [?c] = ps")
      case prev: True
      with "2.prems"(8) m have inv: "v \<in> set values" by simp
      from prev row have r: "getTSIDsForTagFilterSlow_row P tf flt pm ps item = Continue pm ps ids"
        by (simp add: fl filterTSIDs_def)
      from "2.IH"(1) [OF r sep er fl matcher srest ge wf "2.prems"(8)] r M inv
      show ?thesis by (simp add: Un_assoc)
    next
      case noprev: False
      show ?thesis
      proof (cases "v \<in> set values")
        case inv: True
        from noprev row m inv
        have r: "getTSIDsForTagFilterSlow_row P tf flt pm ps item = Continue True (v @ [?c]) ids"
          by (auto simp: fl filterTSIDs_def)
        have "True \<longrightarrow> matchSuffix P tf (v @ [?c]) = Inr True" using m inv by simp
        from "2.IH"(1) [OF r sep er fl matcher srest ge wf this] r M inv
        show ?thesis by (simp add: Un_assoc)
      next
        case notin: False
        show ?thesis
        proof (cases "length ids < MaxTSIDsPerRow P div 2")
          case small: True
          from noprev row m notin small
          have r: "getTSIDsForTagFilterSlow_row P tf flt pm ps item = Continue False ps []"
            by (auto simp: fl)
          have "False \<longrightarrow> matchSuffix P tf ps = Inr True" by simp
          from "2.IH"(1) [OF r sep er fl matcher srest ge wf this] r M notin
          show ?thesis by simp
        next
          case full: False
          let ?k = "(?pfx @ v) @ [?c + 1]"
          from noprev row m notin full sep
          have r: "getTSIDsForTagFilterSlow_row P tf flt pm ps item = Reseek ?k"
            by (auto simp: fl not_le [symmetric])
          have hpk: "HasPrefix item ((?pfx @ v) @ [?c])"
            by (simp add: i HasPrefix_append)
          note sk = Seek_successor_rows [OF "2.prems"(5) sep hpk]
          have s1: "sorted (Seek rest ?k)" using srest by (rule sorted_Seek)
          have s2: "\<forall>x \<in> set (Seek rest ?k). ?pfx \<le> x" using ge sk by blast
          have s3: "\<forall>item \<in> set (Seek rest ?k). HasPrefix item ?pfx \<longrightarrow> wellFormedRow P ?pfx item"
            using wf sk by blast
          have s4: "False \<longrightarrow> matchSuffix P tf ps = Inr True" by simp
          have skipped: "\<not> (HasPrefix x ?pfx \<and> rowValue P ?pfx x \<in> set values)"
            if "x \<in> set rest" "x \<notin> set (Seek rest ?k)" for x
          proof -
            from that sk have "HasPrefix x ((?pfx @ v) @ [?c])" by blast
            then obtain t' where "x = ?pfx @ v @ ?c # t'"
              by (auto simp: HasPrefix_append)
            from row_value_tail(1) [OF this v] notin show ?thesis by simp
          qed
          have "matchingTSIDs P ?pfx values (Seek rest ?k) = matchingTSIDs P ?pfx values rest"
            using sk skipped by (intro matchingTSIDs_skip) blast+
          with "2.IH"(2) [OF r sep er fl matcher s1 s2 s3 s4] r M notin
          show ?thesis by simp
        qed
      qed
    qed
  qed
qed

text \<open>
  Claim C2, as amended. On a sorted table whose rows under the filter prefix are well
  formed (the separator is present and the bytes after it parse as TSIDs), with a cursor
  that reports no error: for a filter with the literal alternatives \<open>orSuffixes\<close> (none
  of which holds the separator byte), the fast path
  (\<open>updateTSIDsByOrSuffixesOfTagFilter\<close>) returns the same TSID set as the slow path
  (\<open>getTSIDsForTagFilterSlow\<close> with a nil filter) run on a filter with the same prefix
  and no literal alternatives whose matcher accepts exactly these literals; the set is
  that of the TSIDs of all rows under the prefix whose value is one of the literals.
\<close>

theorem fast_path_slow_path_equivalence:
  assumes so: "sorted (items is)" and er: "tsError is = None"
    and sep: "tagSeparatorChar P < 255"
    and fast: "\<not> isNegative tf" "orSuffixes tf \<noteq> []"
      "\<forall>s \<in> set (orSuffixes tf). tagSeparatorChar P \<notin> set s"
    and slow: "\<not> isNegative tf'" "orSuffixes tf' = []" "prefix tf' = prefix tf"
    and matcher: "\<forall>v. tagSeparatorChar P \<notin> set v \<longrightarrow>
        matchSuffix P tf' (v @ [tagSeparatorChar P]) = Inr (v \<in> set (orSuffixes tf))"
    and wf: "\<forall>item \<in> set (items is).
        HasPrefix item (prefix tf) \<longrightarrow> wellFormedRow P (prefix tf) item"
  shows "updateTSIDsByOrSuffixesOfTagFilter P is tf {}
           = Inr (matchingTSIDs P (prefix tf) (orSuffixes tf) (items is))
       \<and> getTSIDsForTagFilterSlow P is tf' None {}
           = Inr (matchingTSIDs P (prefix tf) (orSuffixes tf) (items is))
       \<and> searchTSIDsByTagFilter P is tf = searchTSIDsByTagFilter P is tf'"
proof -
  let ?pfx = "prefix tf"
  let ?M = "matchingTSIDs P ?pfx (orSuffixes tf)"
  have f: "updateTSIDsByOrSuffixesOfTagFilter P is tf {} = Inr (?M (items is))"
    using updateTSIDsByOrSuffixes_loop_result [OF so er wf fast(3), of "{}"] fast(1)
    by (simp add: updateTSIDsByOrSuffixesOfTagFilter_def)
  have s1: "sorted (Seek (items is) (prefix tf'))" using so by (rule sorted_Seek)
  have s2: "\<forall>x \<in> set (Seek (items is) (prefix tf')). prefix tf' \<le> x"
    using so Seek_ge slow(3) by blast
  have s3: "\<forall>item \<in> set (Seek (items is) (prefix tf')).
      HasPrefix item (prefix tf') \<longrightarrow> wellFormedRow P (prefix tf') item"
    using wf set_Seek slow(3) by (metis (no_types, lifting))
  have s4: "False \<longrightarrow> matchSuffix P tf' [] = Inr True" by simp
  have skipped: "\<not> (HasPrefix x ?pfx \<and> rowValue P ?pfx x \<in> set (orSuffixes tf))"
    if "x \<in> set (items is)" "x \<notin> set (Seek (items is) ?pfx)" for x
  proof -
    from that in_Seek [of x "items is" ?pfx] have "x < ?pfx" by auto
    then show ?thesis using less_not_HasPrefix by blast
  qed
  have "?M (Seek (items is) ?pfx) = ?M (items is)"
    using set_Seek skipped by (intro matchingTSIDs_skip) blast+
  with slow_loop_result [OF sep refl refl matcher s1 s2 s3 s4, where tsids = "{}"] er
  have s: "getTSIDsForTagFilterSlow P is tf' None {} = Inr (?M (items is))"
    by (simp add: getTSIDsForTagFilterSlow_def slow)
  from f s fast slow show ?thesis
    by (simp add: searchTSIDsByTagFilter_def)
qed

theorem fast_path_slow_path_equivalence_witness:
  "sorted (items demoIndex) \<and> tsError demoIndex = None \<and> tagSeparatorChar demoPkg < 255
   \<and> wellFormedRow demoPkg (prefix hostIsA) rowA \<and> wellFormedRow demoPkg (prefix hostIsA) rowB
   \<and> matchingTSIDs demoPkg (prefix hostIsA) (orSuffixes hostIsA) (items demoIndex) = {1, 2, 3}
   \<and> updateTSIDsByOrSuffixesOfTagFilter demoPkg demoIndex hostIsA {} = Inr {1, 2, 3}
   \<and> getTSIDsForTagFilterSlow demoPkg demoIndex hostLikeA None {} = Inr {1, 2, 3}"
proof -
  have h1: "sorted (items demoIndex)" by code_simp
  have h2: "tsError demoIndex = None" by code_simp
  have h3: "tagSeparatorChar demoPkg < 255" by code_simp
  have h4: "\<not> isNegative hostIsA" by code_simp
  have h5: "orSuffixes hostIsA \<noteq> []" by code_simp
  have h6: "\<forall>s \<in> set (orSuffixes hostIsA). tagSeparatorChar demoPkg \<notin> set s" by code_simp
  have h7: "\<not> isNegative hostLikeA" by code_simp
  have h8: "orSuffixes hostLikeA = []" by code_simp
  have h9: "prefix hostLikeA = prefix hostIsA" by code_simp
  have h10: "\<forall>v. tagSeparatorChar demoPkg \<notin> set v \<longrightarrow>
        matchSuffix demoPkg hostLikeA (v @ [tagSeparatorChar demoPkg])
          = Inr (v \<in> set (orSuffixes hostIsA))"
    by (simp add: demoPkg_def demoMatchSuffix_def hostLikeA_def hostIsA_def)
  have h11: "\<forall>item \<in> set (items demoIndex).
        HasPrefix item (prefix hostIsA) \<longrightarrow> wellFormedRow demoPkg (prefix hostIsA) item"
    by code_simp
  have w: "wellFormedRow demoPkg (prefix hostIsA) rowA \<and> wellFormedRow demoPkg (prefix hostIsA) rowB"
    by code_simp
  have m: "matchingTSIDs demoPkg (prefix hostIsA) (orSuffixes hostIsA) (items demoIndex) = {1, 2, 3}"
    by code_simp
  from fast_path_slow_path_equivalence [OF h1 h2 h3 h4 h5 h6 h7 h8 h9 h10 h11] m
  have "updateTSIDsByOrSuffixesOfTagFilter demoPkg demoIndex hostIsA {} = Inr {1, 2, 3}
      \<and> getTSIDsForTagFilterSlow demoPkg demoIndex hostLikeA None {} = Inr {1, 2, 3}"
    by simp
  with h1 h2 h3 w m show ?thesis by simp
qed

text \<open>
  Claim C2 as stated fails in three ways. The slow path refuses the filter that the fast
  path serves (it panics on a filter with literal alternatives); on a table with a row
  under the prefix that lacks its separator the slow path reports the corruption while the
  fast path, which never reads that row, returns its set; and a cursor error met at the
  end of the table fails the slow path while the fast path has already returned.
\<close>

theorem slow_path_differs_from_fast_path:
  "updateTSIDsByOrSuffixesOfTagFilter demoPkg demoIndex hostIsA {} = Inr {1, 2, 3}
   \<and> getTSIDsForTagFilterSlow demoPkg demoIndex hostIsA None {} = Inl (Panic BugOrSuffixes)
   \<and> sorted (items corruptIndex)
   \<and> updateTSIDsByOrSuffixesOfTagFilter demoPkg corruptIndex hostIsA {} = Inr {1, 2, 3}
   \<and> getTSIDsForTagFilterSlow demoPkg corruptIndex hostLikeA None {}
       = Inl (InvalidTagToTSIDsLine corruptRow 1)
   \<and> updateTSIDsByOrSuffixesOfTagFilter demoPkg (demoIndex\<lparr>tsError := Some ''read error''\<rparr>)
         hostIsA {} = Inr {1, 2, 3}
   \<and> getTSIDsForTagFilterSlow demoPkg (demoIndex\<lparr>tsError := Some ''read error''\<rparr>)
         hostLikeA None {}
       = Inl (TableError ''error when searching for tag filter prefix'' (prefix hostLikeA)
                ''read error'')"
  by code_simp

end
